theory Spec2Isabelle
  imports Complex_Main "HOL-Library.AList"
begin

section \<open>The persistent store\<close>

text \<open>
  The three tables of \<^verbatim>\<open>setup-db.js\<close>, as lists of rows. Only the columns the
  payment flow reads or writes are kept. \<^verbatim>\<open>nfts.id\<close> is the primary key,
  \<^verbatim>\<open>sessions.session_uuid\<close> and \<^verbatim>\<open>sessions.amount_due\<close> are UNIQUE; the
  constraints are checked where a row is inserted (\<open>insert_session\<close>) and appear as the
  predicate \<open>store_ok\<close> below.

  Timestamps (\<^verbatim>\<open>CURRENT_TIMESTAMP\<close>, \<^verbatim>\<open>datetime('now')\<close>) have a resolution of one
  second and are numbers of seconds here. JavaScript numbers are exact rationals: the
  rounding of IEEE doubles is not part of the model, so an amount is the decimal that the
  code prints with \<^verbatim>\<open>toFixed(8)\<close>.
\<close>

datatype status = Pending | PaymentPending | Complete | Failed

record nft =
  nft_id :: int
  cid :: string
  claimed :: bool
  session_id :: "string option"

record session =
  session_uuid :: string
  amount_due :: rat
  status :: status
  quantity :: rat
  payment_txid :: "string option"
  assigned_cids :: "string list option"
  created_at :: nat
  updated_at :: nat

text \<open>
  \<open>sqlite_sequence\<close> is the row of SQLite's table of that name for \<^verbatim>\<open>sessions\<close>
  (absent until the first insert); \<open>last_scanned_payment_block\<close> is the row of
  \<^verbatim>\<open>settings\<close> with that key.
\<close>

record db =
  nfts :: "nft list"
  sessions :: "session list"
  sqlite_sequence :: "nat option"
  last_scanned_payment_block :: "int option"

definition PRICE_PER_NFT :: rat where
  "PRICE_PER_NFT = 5 / 1000"

definition PAYMENT_ADDRESS :: string where
  "PAYMENT_ADDRESS = ''t1gU211G8Msqb6EYVtdnepjZsfonxd2RR8H''"

definition MAX_SUPPLY :: int where
  "MAX_SUPPLY = 5000"

text \<open>\<^verbatim>\<open>import-nfts.js\<close>: every item starts unclaimed and unreserved.\<close>

definition import_nfts :: "(int \<times> string) list \<Rightarrow> db" where
  "import_nfts items =
     \<lparr>nfts = map (\<lambda>(i, c). \<lparr>nft_id = i, cid = c, claimed = False, session_id = None\<rparr>)
               (filter (\<lambda>(i, c). i \<le> 5000) items),
      sessions = [], sqlite_sequence = None, last_scanned_payment_block = None\<rparr>"

text \<open>
  \<^verbatim>\<open>db.transaction(fn)()\<close> of better-sqlite3: the body runs on the store; when it
  throws, every write it made is rolled back and the exception is passed on.
\<close>

definition db_transaction :: "(db \<Rightarrow> 'e + db \<times> 'a) \<Rightarrow> db \<Rightarrow> db \<times> ('e + 'a)" where
  "db_transaction body st =
     (case body st of
        Inl e \<Rightarrow> (st, Inl e)
      | Inr (st', r) \<Rightarrow> (st', Inr r))"

subsection \<open>The statements shared by the operations\<close>

text \<open>\<^verbatim>\<open>UPDATE nfts SET session_id = NULL WHERE session_id = ? AND claimed = 0\<close>\<close>

definition releaseStmt :: "string \<Rightarrow> db \<Rightarrow> db" where
  "releaseStmt u st =
     st\<lparr>nfts := map (\<lambda>n. if session_id n = Some u \<and> \<not> claimed n
                           then n\<lparr>session_id := None\<rparr> else n) (nfts st)\<rparr>"

text \<open>\<^verbatim>\<open>DELETE FROM sessions WHERE session_uuid = ?\<close>\<close>

definition deleteStmt :: "string \<Rightarrow> db \<Rightarrow> db" where
  "deleteStmt u st = st\<lparr>sessions := filter (\<lambda>s. session_uuid s \<noteq> u) (sessions st)\<rparr>"

definition release_and_delete :: "session \<Rightarrow> db \<Rightarrow> db" where
  "release_and_delete s st = deleteStmt (session_uuid s) (releaseStmt (session_uuid s) st)"

section \<open>The sweeper\<close>

text \<open>
  The repository holds two revisions of the HTTP server. The later one (its comment on the
  timeout reads \<^verbatim>\<open>Extended to 10 minutes (was 5)\<close>) knows the status
  \<^verbatim>\<open>payment_pending\<close>; its definitions carry the source's names. The earlier one
  (\<^verbatim>\<open>server.js\<close>, five minutes, \<^verbatim>\<open>pending\<close> only) has the suffix \<open>_5min\<close>.
\<close>

definition SESSION_TIMEOUT_MINUTES :: nat where
  "SESSION_TIMEOUT_MINUTES = 10"

definition SESSION_TIMEOUT_MINUTES_5min :: nat where
  "SESSION_TIMEOUT_MINUTES_5min = 5"

text \<open>
  \<^verbatim>\<open>WHERE status = 'pending' AND datetime(created_at, '+N minutes') < datetime('now')\<close>
\<close>

definition expiredSessions :: "nat \<Rightarrow> nat \<Rightarrow> db \<Rightarrow> session list" where
  "expiredSessions timeout now st =
     filter (\<lambda>s. status s = Pending \<and> created_at s + timeout * 60 < now) (sessions st)"

text \<open>
  \<^verbatim>\<open>WHERE status = 'payment_pending' AND datetime(updated_at, '+24 hours') < datetime('now')\<close>
\<close>

definition abandonedSessions :: "nat \<Rightarrow> db \<Rightarrow> session list" where
  "abandonedSessions now st =
     filter (\<lambda>s. status s = PaymentPending \<and> updated_at s + 24 * 3600 < now) (sessions st)"

definition cleanupExpiredSessions_5min :: "nat \<Rightarrow> db \<Rightarrow> db" where
  "cleanupExpiredSessions_5min now st =
     fold release_and_delete (expiredSessions SESSION_TIMEOUT_MINUTES_5min now st) st"

definition cleanupExpiredSessions :: "nat \<Rightarrow> db \<Rightarrow> db" where
  "cleanupExpiredSessions now st =
     (let st1 = fold release_and_delete (expiredSessions SESSION_TIMEOUT_MINUTES now st) st
      in fold release_and_delete (abandonedSessions now st1) st1)"

section \<open>Creating a payment intent\<close>

datatype intent_error =
    InvalidQuantity
  | OnlyRemaining nat rat
  | FailedToReserve
  | SqliteConstraintUnique
  | SqliteMismatch

datatype intent_response =
    IntentSuccess string rat string
  | IntentError intent_error

text \<open>\<^verbatim>\<open>x.toFixed(8)\<close>: the nearest multiple of \<open>10\<^sup>-\<^sup>8\<close>, the larger one on a tie.\<close>

definition toFixed8 :: "rat \<Rightarrow> rat" where
  "toFixed8 x = of_int \<lfloor>x * 100000000 + 1 / 2\<rfloor> / 100000000"

text \<open>\<^verbatim>\<open>WHERE claimed = 0 AND session_id IS NULL AND id <= ?\<close> with \<^verbatim>\<open>MAX_SUPPLY\<close>\<close>

definition available :: "nft \<Rightarrow> bool" where
  "available n \<longleftrightarrow> \<not> claimed n \<and> session_id n = None \<and> nft_id n \<le> MAX_SUPPLY"

text \<open>
  \<^verbatim>\<open>ORDER BY RANDOM()\<close>: SQLite draws one number for each row and sorts by it. The
  draws are the parameter \<open>rnd\<close>, indexed by the position of the row.
\<close>

definition order_by_random :: "(nat \<Rightarrow> int) \<Rightarrow> 'a list \<Rightarrow> 'a list" where
  "order_by_random rnd xs = map snd (sort_key fst (zip (map rnd [0..<length xs]) xs))"

text \<open>
  \<^verbatim>\<open>LIMIT ?\<close>: SQLite refuses a bound that is no integer (\<^verbatim>\<open>datatype mismatch\<close>)
  and takes a negative one as no limit.
\<close>

definition sql_limit :: "rat \<Rightarrow> 'a list \<Rightarrow> intent_error + 'a list" where
  "sql_limit q xs =
     (if of_int \<lfloor>q\<rfloor> \<noteq> q then Inl SqliteMismatch
      else if q < 0 then Inr xs
      else Inr (take (nat \<lfloor>q\<rfloor>) xs))"

text \<open>
  \<^verbatim>\<open>INSERT INTO sessions (session_uuid, amount_due, quantity, status)\<close>: the two UNIQUE
  columns are checked; the AUTOINCREMENT key advances \<open>sqlite_sequence\<close> by one; both
  timestamps default to the current time.
\<close>

definition seq_of :: "db \<Rightarrow> nat" where
  "seq_of st = (case sqlite_sequence st of None \<Rightarrow> 0 | Some n \<Rightarrow> n)"

definition insert_session :: "string \<Rightarrow> rat \<Rightarrow> rat \<Rightarrow> nat \<Rightarrow> db \<Rightarrow> intent_error + db" where
  "insert_session sessionId uniqueAmount q now st =
     (if list_ex (\<lambda>s. session_uuid s = sessionId \<or> amount_due s = uniqueAmount) (sessions st)
      then Inl SqliteConstraintUnique
      else Inr (st\<lparr>sessions := sessions st @
                       [\<lparr>session_uuid = sessionId, amount_due = uniqueAmount, status = Pending,
                         quantity = q, payment_txid = None, assigned_cids = None,
                         created_at = now, updated_at = now\<rparr>],
                    sqlite_sequence := Some (seq_of st + 1)\<rparr>))"

text \<open>\<^verbatim>\<open>UPDATE nfts SET session_id = ? WHERE id IN (...)\<close>\<close>

definition reserve_ids :: "string \<Rightarrow> int list \<Rightarrow> db \<Rightarrow> db" where
  "reserve_ids sessionId ids st =
     st\<lparr>nfts := map (\<lambda>n. if nft_id n \<in> set ids then n\<lparr>session_id := Some sessionId\<rparr> else n)
                     (nfts st)\<rparr>"

definition uniqueAmount_of :: "rat \<Rightarrow> nat \<Rightarrow> rat" where
  "uniqueAmount_of q nextId = PRICE_PER_NFT * q + of_nat nextId / 100000000"

text \<open>
  The body of the transaction. \<open>sessionId\<close> stands for
  \<^verbatim>\<open>crypto.randomBytes(16).toString('hex')\<close>, \<open>now\<close> for the clock.
\<close>

definition intent_transaction ::
  "(nat \<Rightarrow> int) \<Rightarrow> string \<Rightarrow> nat \<Rightarrow> rat \<Rightarrow> db \<Rightarrow> intent_error + db \<times> string \<times> rat" where
  "intent_transaction rnd sessionId now q st =
     (let availableCount = length (filter available (nfts st)) in
      if of_nat availableCount < q then Inl (OnlyRemaining availableCount q)
      else
        let nextId = seq_of st + 1;
            uniqueAmount = uniqueAmount_of q nextId
        in case insert_session sessionId uniqueAmount q now st of
             Inl e \<Rightarrow> Inl e
           | Inr st1 \<Rightarrow>
               (case sql_limit q (order_by_random rnd (filter available (nfts st1))) of
                  Inl e \<Rightarrow> Inl e
                | Inr chosen \<Rightarrow>
                    let st2 = reserve_ids sessionId (map nft_id chosen) st1;
                        reservedCount =
                          length (filter (\<lambda>n. session_id n = Some sessionId) (nfts st2))
                    in if of_nat reservedCount \<noteq> q then Inl FailedToReserve
                       else Inr (st2, sessionId, uniqueAmount)))"

definition intent_reply :: "db \<times> (intent_error + string \<times> rat) \<Rightarrow> db \<times> intent_response" where
  "intent_reply r =
     (case r of
        (st, Inl e) \<Rightarrow> (st, IntentError e)
      | (st, Inr (sessionId, uniqueAmount)) \<Rightarrow>
          (st, IntentSuccess sessionId (toFixed8 uniqueAmount) PAYMENT_ADDRESS))"

text \<open>
  The handler. The body's \<^verbatim>\<open>quantity\<close> is a JSON number or missing (\<open>None\<close>);
  \<^verbatim>\<open>!quantity\<close> holds for a missing field and for \<open>0\<close>. Strings, booleans and
  other JSON values are not modelled.
\<close>

definition invalid_quantity :: "rat option \<Rightarrow> bool" where
  "invalid_quantity body =
     (case body of None \<Rightarrow> True | Some q \<Rightarrow> q = 0 \<or> q < 1 \<or> q > 20)"

definition create_payment_intent ::
  "(nat \<Rightarrow> int) \<Rightarrow> string \<Rightarrow> nat \<Rightarrow> rat option \<Rightarrow> db \<Rightarrow> db \<times> intent_response" where
  "create_payment_intent rnd sessionId now body st =
     (case body of
        None \<Rightarrow> (st, IntentError InvalidQuantity)
      | Some q \<Rightarrow>
          if invalid_quantity (Some q) then (st, IntentError InvalidQuantity)
          else intent_reply (db_transaction (intent_transaction rnd sessionId now q) st))"

section \<open>Checking the status of a payment\<close>

datatype status_response =
    StatusError string
  | StatusExpired string
  | StatusComplete "string list" rat
  | StatusPaymentPending string "string option"
  | StatusPending
  | StatusOther status string

text \<open>
  \<^verbatim>\<open>.get(sessionId)\<close> returns the first matching row. \<open>now_ms\<close> is
  \<^verbatim>\<open>new Date()\<close> in milliseconds. \<^verbatim>\<open>JSON.parse\<close> of a NULL
  \<^verbatim>\<open>assigned_cids\<close> yields \<^verbatim>\<open>null\<close>, whose \<^verbatim>\<open>.map\<close> throws into the
  handler's \<^verbatim>\<open>catch\<close>.
\<close>

definition minutesElapsed :: "int \<Rightarrow> session \<Rightarrow> rat" where
  "minutesElapsed now_ms s = of_int (now_ms - 1000 * int (created_at s)) / (1000 * 60)"

definition check_payment_status :: "int \<Rightarrow> string \<Rightarrow> db \<Rightarrow> status_response" where
  "check_payment_status now_ms sessionId st =
     (case find (\<lambda>s. session_uuid s = sessionId) (sessions st) of
        None \<Rightarrow> StatusError ''Invalid session.''
      | Some s \<Rightarrow>
          if status s = Pending \<and> minutesElapsed now_ms s > of_nat SESSION_TIMEOUT_MINUTES
          then StatusExpired ''Payment session expired. Please start a new mint.''
          else if status s = Complete then
            (case assigned_cids s of
               None \<Rightarrow> StatusError ''Failed to check payment status.''
             | Some assignedCids \<Rightarrow> StatusComplete assignedCids (quantity s))
          else if status s = PaymentPending then
            StatusPaymentPending ''Payment detected! Waiting for blockchain confirmation...''
              (payment_txid s)
          else if status s = Pending then StatusPending
          else StatusOther (status s) ''Something went wrong.'')"

definition check_payment_status_5min :: "int \<Rightarrow> string \<Rightarrow> db \<Rightarrow> status_response" where
  "check_payment_status_5min now_ms sessionId st =
     (case find (\<lambda>s. session_uuid s = sessionId) (sessions st) of
        None \<Rightarrow> StatusError ''Invalid session.''
      | Some s \<Rightarrow>
          if status s = Pending \<and> minutesElapsed now_ms s > of_nat SESSION_TIMEOUT_MINUTES_5min
          then StatusExpired ''Payment session expired. Please start a new mint.''
          else if status s = Complete then
            (case assigned_cids s of
               None \<Rightarrow> StatusError ''Failed to check payment status.''
             | Some assignedCids \<Rightarrow> StatusComplete assignedCids (quantity s))
          else StatusPending)"

section \<open>The pool of RPC endpoints\<close>

record api =
  name :: string
  url :: string
  dailyLimit :: int
  cuUsedToday :: int
  lastReset :: string
  enabled :: bool
  failCount :: nat

text \<open>The five endpoints as the monitor starts them on the day \<open>today\<close>.\<close>

definition new_api :: "string \<Rightarrow> string \<Rightarrow> string \<Rightarrow> api" where
  "new_api today n u =
     \<lparr>name = n, url = u, dailyLimit = 50000, cuUsedToday = 0, lastReset = today,
      enabled = True, failCount = 0\<rparr>"

definition API_ENDPOINTS :: "string \<Rightarrow> api list" where
  "API_ENDPOINTS today =
     [new_api today ''zec-c532b'' ''https://go.getblock.io/c532b1037c924be386735ccbcd2f3afa'',
      new_api today ''zec-cacd8'' ''https://go.getblock.io/cacd8cc301134aa6b4815883955b230d'',
      new_api today ''zec-3f3c1'' ''https://go.getblock.io/3f3c14fa367842f988b5d10b912bf275'',
      new_api today ''zec-7f77d'' ''https://go.getblock.io/7f77d2bce9c14f97abe6f1b0c3b7c444'',
      new_api today ''zec-42851'' ''https://go.getblock.io/42851929b20140a2b6f4f3f70e99d323'']"

text \<open>The \<^verbatim>\<open>forEach\<close> at the head of \<^verbatim>\<open>selectBestApi\<close>.\<close>

definition reset_daily :: "string \<Rightarrow> api \<Rightarrow> api" where
  "reset_daily today a =
     (if lastReset a \<noteq> today
      then a\<lparr>cuUsedToday := 0, lastReset := today, failCount := 0, enabled := True\<rparr>
      else a)"

definition is_available :: "api \<Rightarrow> bool" where
  "is_available a \<longleftrightarrow>
     enabled a \<and> rat_of_int (cuUsedToday a) < rat_of_int (dailyLimit a) * (9 / 10) \<and>
     failCount a < 3"

text \<open>
  The callback of \<^verbatim>\<open>reduce\<close>, on positions in the pool: the function returns the
  endpoint object itself, which the caller then mutates.
\<close>

definition better_api :: "api list \<Rightarrow> nat \<Rightarrow> nat \<Rightarrow> nat" where
  "better_api apis best current =
     (let bestRemaining = dailyLimit (apis ! best) - cuUsedToday (apis ! best);
          currentRemaining = dailyLimit (apis ! current) - cuUsedToday (apis ! current)
      in if currentRemaining > bestRemaining then current else best)"

definition selectBestApi :: "string \<Rightarrow> api list \<Rightarrow> api list \<times> nat option" where
  "selectBestApi today apis =
     (let apis1 = map (reset_daily today) apis;
          availableApis = filter (\<lambda>i. is_available (apis1 ! i)) [0..<length apis1]
      in case availableApis of
           [] \<Rightarrow> (apis1, None)
         | first # others \<Rightarrow> (apis1, Some (foldl (better_api apis1) first others)))"

datatype 'r outcome = TransportError | RpcError | RpcResult 'r

text \<open>
  The answers of the upstreams are the parameter \<open>net\<close>: what a POST to the endpoint with
  the given URL yields at the given attempt of this call. The loop of \<^verbatim>\<open>rpcCall\<close>
  runs \<open>attempt\<close> from \<open>0\<close> while \<open>left\<close> attempts remain.
\<close>

definition record_failure :: "api \<Rightarrow> api" where
  "record_failure a = a\<lparr>failCount := failCount a + 1\<rparr>"

definition disable_after_failures :: "api \<Rightarrow> api" where
  "disable_after_failures a = (if failCount a \<ge> 3 then a\<lparr>enabled := False\<rparr> else a)"

definition record_success :: "int \<Rightarrow> api \<Rightarrow> api" where
  "record_success estimatedCU a = a\<lparr>cuUsedToday := cuUsedToday a + estimatedCU, failCount := 0\<rparr>"

fun rpc_attempts ::
  "string \<Rightarrow> (nat \<Rightarrow> string \<Rightarrow> 'r outcome) \<Rightarrow> int \<Rightarrow> nat \<Rightarrow> nat \<Rightarrow> api list \<Rightarrow> api list \<times> 'r option"
where
  "rpc_attempts today net estimatedCU attempt 0 apis = (apis, None)"
| "rpc_attempts today net estimatedCU attempt (Suc left) apis =
     (case selectBestApi today apis of
        (apis1, None) \<Rightarrow> (apis1, None)
      | (apis1, Some i) \<Rightarrow>
          (case net attempt (url (apis1 ! i)) of
             RpcError \<Rightarrow>
               rpc_attempts today net estimatedCU (attempt + 1) left
                 (apis1[i := record_failure (apis1 ! i)])
           | RpcResult r \<Rightarrow> (apis1[i := record_success estimatedCU (apis1 ! i)], Some r)
           | TransportError \<Rightarrow>
               rpc_attempts today net estimatedCU (attempt + 1) left
                 (apis1[i := disable_after_failures (record_failure (apis1 ! i))])))"

definition rpcCall ::
  "string \<Rightarrow> (nat \<Rightarrow> string \<Rightarrow> 'r outcome) \<Rightarrow> int \<Rightarrow> api list \<Rightarrow> api list \<times> 'r option" where
  "rpcCall today net estimatedCU apis = rpc_attempts today net estimatedCU 0 (length apis) apis"

section \<open>The payment monitor\<close>

record vout =
  addresses :: "string list"
  vout_value :: rat

record tx =
  txid :: string
  vout :: "vout list"

type_synonym block = "tx list"

text \<open>What the upstreams answer during one cycle, for each method the scanner calls.\<close>

record upstream =
  getblockcount :: "nat \<Rightarrow> string \<Rightarrow> int outcome"
  getblockhash :: "int \<Rightarrow> nat \<Rightarrow> string \<Rightarrow> string outcome"
  getblock :: "string \<Rightarrow> nat \<Rightarrow> string \<Rightarrow> block outcome"

text \<open>
  The \<^verbatim>\<open>Map\<close> \<^verbatim>\<open>pendingPayments\<close>, from the 8-decimal rendering of an amount to
  \<^verbatim>\<open>{sessionId, quantity}\<close>, in insertion order.
\<close>

type_synonym pending = "(rat \<times> string \<times> rat) list"

record monitor =
  store :: db
  apis :: "api list"
  pendingPayments :: pending

definition loadPendingPayments :: "db \<Rightarrow> pending" where
  "loadPendingPayments st =
     fold (\<lambda>s. AList.update (toFixed8 (amount_due s)) (session_uuid s, quantity s))
       (filter (\<lambda>s. status s = Pending \<or> status s = PaymentPending) (sessions st)) []"

definition markPaymentPending :: "string \<Rightarrow> string \<Rightarrow> nat \<Rightarrow> db \<Rightarrow> db" where
  "markPaymentPending sessionId t now st =
     (case find (\<lambda>s. session_uuid s = sessionId) (sessions st) of
        None \<Rightarrow> st
      | Some s \<Rightarrow>
          if status s = Pending
          then st\<lparr>sessions :=
                    map (\<lambda>r. if session_uuid r = sessionId
                              then r\<lparr>status := PaymentPending, payment_txid := Some t,
                                     updated_at := now\<rparr>
                              else r) (sessions st)\<rparr>
          else st)"

text \<open>
  \<^verbatim>\<open>fulfillOrder(session, txid, amountPaid)\<close>; \<open>session\<close> is the entry of the pending
  index. The stored status of the session is not read.
\<close>

definition fulfillOrder :: "string \<times> rat \<Rightarrow> string \<Rightarrow> db \<Rightarrow> db" where
  "fulfillOrder session t st =
     (let sessionId = fst session;
          rows = filter (\<lambda>n. session_id n = Some sessionId \<and> \<not> claimed n \<and> nft_id n \<le> MAX_SUPPLY)
                   (nfts st)
      in if of_nat (length rows) < snd session
         then (releaseStmt sessionId st)
                \<lparr>sessions := map (\<lambda>r. if session_uuid r = sessionId then r\<lparr>status := Failed\<rparr> else r)
                                 (sessions st)\<rparr>
         else st\<lparr>sessions :=
                   map (\<lambda>r. if session_uuid r = sessionId
                             then r\<lparr>status := Complete, payment_txid := Some t,
                                    assigned_cids := Some (map cid rows)\<rparr>
                             else r) (sessions st),
                 nfts := map (\<lambda>n. if session_id n = Some sessionId \<and> \<not> claimed n
                                    then n\<lparr>claimed := True\<rparr> else n) (nfts st)\<rparr>)"

text \<open>
  The first monitor's \<^verbatim>\<open>fulfillOrder\<close>, written before items were reserved: it draws
  unclaimed items at random when the payment is seen.
\<close>

definition claim_cid :: "string \<Rightarrow> string \<Rightarrow> db \<Rightarrow> db" where
  "claim_cid sessionId c st =
     st\<lparr>nfts := map (\<lambda>n. if cid n = c then n\<lparr>claimed := True, session_id := Some sessionId\<rparr> else n)
                     (nfts st)\<rparr>"

definition fulfillOrder_legacy :: "(nat \<Rightarrow> int) \<Rightarrow> string \<times> rat \<Rightarrow> string \<Rightarrow> db \<Rightarrow> db" where
  "fulfillOrder_legacy rnd session t st =
     (case sql_limit (snd session)
             (order_by_random rnd (filter (\<lambda>n. \<not> claimed n \<and> nft_id n \<le> MAX_SUPPLY) (nfts st))) of
        Inl e \<Rightarrow> st
      | Inr rows \<Rightarrow>
          if of_nat (length rows) < snd session then st
          else fold (claim_cid (fst session)) (map cid rows)
                 (st\<lparr>sessions :=
                       map (\<lambda>r. if session_uuid r = fst session
                                 then r\<lparr>status := Complete, payment_txid := Some t,
                                        assigned_cids := Some (map cid rows)\<rparr>
                                 else r) (sessions st)\<rparr>))"

text \<open>The body of the two loops of \<^verbatim>\<open>scanBlock\<close>, for one output of one transaction.\<close>

definition scan_vout :: "string \<Rightarrow> vout \<Rightarrow> monitor \<Rightarrow> monitor" where
  "scan_vout t v ms =
     (if PAYMENT_ADDRESS \<in> set (addresses v) then
        (let amountPaid = toFixed8 (vout_value v) in
         case map_of (pendingPayments ms) amountPaid of
           None \<Rightarrow> ms
         | Some session \<Rightarrow>
             ms\<lparr>store := fulfillOrder session t (store ms),
                pendingPayments := AList.delete amountPaid (pendingPayments ms)\<rparr>)
      else ms)"

definition scan_tx :: "tx \<Rightarrow> monitor \<Rightarrow> monitor" where
  "scan_tx x ms = fold (scan_vout (txid x)) (vout x) ms"

definition scanBlock :: "string \<Rightarrow> upstream \<Rightarrow> int \<Rightarrow> monitor \<Rightarrow> monitor" where
  "scanBlock today up blockHeight ms =
     (case rpcCall today (getblockhash up blockHeight) 5 (apis ms) of
        (apis1, None) \<Rightarrow> ms\<lparr>apis := apis1\<rparr>
      | (apis1, Some blockHash) \<Rightarrow>
          if blockHash = [] then ms\<lparr>apis := apis1\<rparr>
          else
            (case rpcCall today (getblock up blockHash) 30 apis1 of
               (apis2, None) \<Rightarrow> ms\<lparr>apis := apis2\<rparr>
             | (apis2, Some b) \<Rightarrow> fold scan_tx b (ms\<lparr>apis := apis2\<rparr>)))"

text \<open>
  \<^verbatim>\<open>UPDATE settings SET value = ? WHERE key = ?\<close> after a block: it changes the row
  where there is one.
\<close>

definition persist_height :: "int \<Rightarrow> db \<Rightarrow> db" where
  "persist_height height st =
     (case last_scanned_payment_block st of
        None \<Rightarrow> st
      | Some l \<Rightarrow> st\<lparr>last_scanned_payment_block := Some height\<rparr>)"

definition scan_and_persist :: "string \<Rightarrow> upstream \<Rightarrow> int \<Rightarrow> monitor \<Rightarrow> monitor" where
  "scan_and_persist today up height ms =
     (let ms1 = scanBlock today up height ms
      in ms1\<lparr>store := persist_height height (store ms1)\<rparr>)"

definition monitorBlocks :: "string \<Rightarrow> upstream \<Rightarrow> monitor \<Rightarrow> monitor" where
  "monitorBlocks today up ms =
     (let ms0 = ms\<lparr>pendingPayments := loadPendingPayments (store ms)\<rparr> in
      if pendingPayments ms0 = [] then ms0
      else
        (case rpcCall today (getblockcount up) 5 (apis ms0) of
           (apis1, None) \<Rightarrow> ms0\<lparr>apis := apis1\<rparr>
         | (apis1, Some currentHeight) \<Rightarrow>
             if currentHeight = 0 then ms0\<lparr>apis := apis1\<rparr>
             else
               (let (ms1, lastScanned) =
                      (case last_scanned_payment_block (store ms0) of
                         None \<Rightarrow>
                           (ms0\<lparr>apis := apis1,
                                store := (store ms0)\<lparr>last_scanned_payment_block :=
                                                        Some (currentHeight - 100)\<rparr>\<rparr>,
                            currentHeight - 100)
                       | Some l \<Rightarrow> (ms0\<lparr>apis := apis1\<rparr>, l));
                    startBlock = lastScanned + 1
                in if startBlock > currentHeight then ms1
                   else fold (scan_and_persist today up) [startBlock..currentHeight] ms1)))"

text \<open>A run of the scanner: one cycle after the other, each with its day and upstreams.\<close>

definition block_scanner :: "(string \<times> upstream) list \<Rightarrow> monitor \<Rightarrow> monitor" where
  "block_scanner cycles ms = fold (\<lambda>(today, up). monitorBlocks today up) cycles ms"

text \<open>The order on the cursor: a missing row is below every height.\<close>

definition cursor_le :: "int option \<Rightarrow> int option \<Rightarrow> bool" where
  "cursor_le a b =
     (case a of None \<Rightarrow> True | Some x \<Rightarrow> (case b of None \<Rightarrow> False | Some y \<Rightarrow> x \<le> y))"

section \<open>Notions used in the statements\<close>

text \<open>What the two release statements do to one item, for a set of session ids.\<close>

definition released :: "string set \<Rightarrow> nft \<Rightarrow> nft" where
  "released U n =
     (if \<not> claimed n \<and> session_id n \<in> Some ` U then n\<lparr>session_id := None\<rparr> else n)"

text \<open>The ids of the sessions that one run of the sweeper removes.\<close>

definition swept :: "nat \<Rightarrow> db \<Rightarrow> string set" where
  "swept now st =
     session_uuid ` set (expiredSessions SESSION_TIMEOUT_MINUTES now st) \<union>
     session_uuid ` set (abandonedSessions now
        (fold release_and_delete (expiredSessions SESSION_TIMEOUT_MINUTES now st) st))"

subsection \<open>A small store for concrete runs\<close>

definition example_old :: session where
  "example_old =
     \<lparr>session_uuid = ''0a'', amount_due = 500001 / 100000000, status = Pending, quantity = 1,
      payment_txid = None, assigned_cids = None, created_at = 0, updated_at = 0\<rparr>"

definition example_young :: session where
  "example_young =
     \<lparr>session_uuid = ''0b'', amount_due = 1000002 / 100000000, status = Pending, quantity = 2,
      payment_txid = None, assigned_cids = None, created_at = 1000, updated_at = 1000\<rparr>"

definition example_paid :: session where
  "example_paid =
     \<lparr>session_uuid = ''0c'', amount_due = 500003 / 100000000, status = PaymentPending,
      quantity = 1, payment_txid = Some ''t3'', assigned_cids = None, created_at = 0,
      updated_at = 100\<rparr>"

definition example_done :: session where
  "example_done =
     \<lparr>session_uuid = ''0d'', amount_due = 500004 / 100000000, status = Complete, quantity = 1,
      payment_txid = Some ''t4'', assigned_cids = Some [''cid6''], created_at = 0,
      updated_at = 0\<rparr>"

definition example_nfts :: "nft list" where
  "example_nfts =
     [\<lparr>nft_id = 1, cid = ''cid1'', claimed = False, session_id = Some ''0a''\<rparr>,
      \<lparr>nft_id = 2, cid = ''cid2'', claimed = False, session_id = Some ''0b''\<rparr>,
      \<lparr>nft_id = 3, cid = ''cid3'', claimed = False, session_id = Some ''0b''\<rparr>,
      \<lparr>nft_id = 4, cid = ''cid4'', claimed = False, session_id = Some ''0c''\<rparr>,
      \<lparr>nft_id = 5, cid = ''cid5'', claimed = False, session_id = None\<rparr>,
      \<lparr>nft_id = 6, cid = ''cid6'', claimed = True, session_id = Some ''0d''\<rparr>,
      \<lparr>nft_id = 7, cid = ''cid7'', claimed = False, session_id = None\<rparr>]"

definition example_db :: db where
  "example_db =
     \<lparr>nfts = example_nfts,
      sessions = [example_old, example_young, example_paid, example_done],
      sqlite_sequence = Some 4, last_scanned_payment_block = Some 2000\<rparr>"

subsection \<open>Invariants of the store and its reachable states\<close>

definition reserved_count :: "db \<Rightarrow> string \<Rightarrow> nat" where
  "reserved_count st u = length (filter (\<lambda>n. session_id n = Some u \<and> \<not> claimed n) (nfts st))"

definition reservation_inv :: "db \<Rightarrow> bool" where
  "reservation_inv st \<longleftrightarrow>
     (\<forall>s \<in> set (sessions st).
        status s = Pending \<or> status s = PaymentPending \<longrightarrow>
        rat_of_nat (reserved_count st (session_uuid s)) = quantity s)"

text \<open>The primary key of \<^verbatim>\<open>nfts\<close> and the two UNIQUE columns of \<^verbatim>\<open>sessions\<close>.\<close>

definition store_ok :: "db \<Rightarrow> bool" where
  "store_ok st \<longleftrightarrow>
     distinct (map nft_id (nfts st)) \<and>
     distinct (map session_uuid (sessions st)) \<and>
     distinct (map amount_due (sessions st))"

text \<open>
  The states of the store: it starts as the import leaves it, and each step is one of the
  operations that write to it, with any arguments. The scanner's calls of
  \<^verbatim>\<open>fulfillOrder\<close> and its writes of the cursor are steps of their own.
\<close>

inductive reachable :: "db \<Rightarrow> bool" where
  start: "distinct (map fst items) \<Longrightarrow> reachable (import_nfts items)"
| intent: "reachable st \<Longrightarrow> reachable (fst (create_payment_intent rnd sessionId now body st))"
| mempool: "reachable st \<Longrightarrow> reachable (markPaymentPending sessionId t now st)"
| confirmed: "reachable st \<Longrightarrow> reachable (fulfillOrder session t st)"
| sweep: "reachable st \<Longrightarrow> reachable (cleanupExpiredSessions now st)"
| sweep_5min: "reachable st \<Longrightarrow> reachable (cleanupExpiredSessions_5min now st)"
| cursor: "reachable st \<Longrightarrow> reachable (st\<lparr>last_scanned_payment_block := c\<rparr>)"

text \<open>The row a successful intent inserts, and what its reservation does to one item.\<close>

definition new_session :: "string \<Rightarrow> rat \<Rightarrow> rat \<Rightarrow> nat \<Rightarrow> session" where
  "new_session sessionId uniqueAmount q now =
     \<lparr>session_uuid = sessionId, amount_due = uniqueAmount, status = Pending,
      quantity = q, payment_txid = None, assigned_cids = None,
      created_at = now, updated_at = now\<rparr>"

definition reserve_row :: "string \<Rightarrow> nft set \<Rightarrow> nft \<Rightarrow> nft" where
  "reserve_row sessionId ch n = (if n \<in> ch then n\<lparr>session_id := Some sessionId\<rparr> else n)"

subsection \<open>Intents one after the other\<close>

text \<open>
  A client that sends \<^verbatim>\<open>{quantity: 1}\<close> again and again; each call has its own random
  draws, generated id and clock. The answers are collected in order.
\<close>

fun sequential_intents ::
  "((nat \<Rightarrow> int) \<times> string \<times> nat) list \<Rightarrow> db \<Rightarrow> db \<times> intent_response list" where
  "sequential_intents [] st = (st, [])"
| "sequential_intents ((rnd, sessionId, now) # calls) st =
     (case create_payment_intent rnd sessionId now (Some 1) st of
        (st1, r) \<Rightarrow>
          (case sequential_intents calls st1 of
             (st2, rs) \<Rightarrow> (st2, r # rs)))"

fun reply_amounts :: "intent_response list \<Rightarrow> rat list" where
  "reply_amounts [] = []"
| "reply_amounts (IntentSuccess sessionId amount address # rs) = amount # reply_amounts rs"
| "reply_amounts (IntentError e # rs) = reply_amounts rs"

text \<open>The generated id is new to the store: no session and no item carries it.\<close>

definition fresh_id :: "string \<Rightarrow> db \<Rightarrow> bool" where
  "fresh_id sessionId st \<longleftrightarrow>
     (\<forall>s \<in> set (sessions st). session_uuid s \<noteq> sessionId) \<and>
     (\<forall>n \<in> set (nfts st). session_id n \<noteq> Some sessionId)"

definition call_id :: "(nat \<Rightarrow> int) \<times> string \<times> nat \<Rightarrow> string" where
  "call_id c = fst (snd c)"

text \<open>
  Every item that is reserved and not claimed refers to a session that is still waiting
  for its payment.
\<close>

definition reservations_owned :: "db \<Rightarrow> bool" where
  "reservations_owned st \<longleftrightarrow>
     (\<forall>n \<in> set (nfts st). \<not> claimed n \<longrightarrow>
        (case session_id n of
           None \<Rightarrow> True
         | Some u \<Rightarrow> \<exists>s \<in> set (sessions st).
             session_uuid s = u \<and> (status s = Pending \<or> status s = PaymentPending)))"

text \<open>One item is reserved, paid for and assigned; then the same block is scanned again.\<close>

definition replay_db :: db where
  "replay_db =
     fulfillOrder (''0a'', 1) ''t1''
       (fst (create_payment_intent (\<lambda>i. int i) ''0a'' 0 (Some 1) (import_nfts [(1, ''cid1'')])))"

text \<open>The cursor as the monitor's store holds it.\<close>

definition cursor_of :: "monitor \<Rightarrow> int option" where
  "cursor_of ms = last_scanned_payment_block (store ms)"

subsection \<open>Upstreams and a monitor for concrete runs\<close>

text \<open>
  The tip is at height 2003 and every block holds one payment of 0.00500001 to the
  payment address.
\<close>

definition example_upstream :: upstream where
  "example_upstream =
     \<lparr>getblockcount = (\<lambda>attempt u. RpcResult 2003),
      getblockhash = (\<lambda>height attempt u. RpcResult ''00ab''),
      getblock = (\<lambda>hash attempt u.
        RpcResult [\<lparr>txid = ''t5'',
                     vout = [\<lparr>addresses = [PAYMENT_ADDRESS],
                              vout_value = 500001 / 100000000\<rparr>]\<rparr>])\<rparr>"

definition example_monitor :: monitor where
  "example_monitor =
     \<lparr>store = example_db, apis = API_ENDPOINTS ''Mon Nov 03 2025'', pendingPayments = []\<rparr>"

text \<open>The first two endpoints do not answer; the other three would answer 42.\<close>

definition two_down :: "nat \<Rightarrow> string \<Rightarrow> int outcome" where
  "two_down attempt u =
     (if u = ''https://go.getblock.io/c532b1037c924be386735ccbcd2f3afa'' \<or>
         u = ''https://go.getblock.io/cacd8cc301134aa6b4815883955b230d''
      then TransportError else RpcResult 42)"

text \<open>The first endpoint answers with an \<^verbatim>\<open>error\<close> field; the others answer 42.\<close>

definition first_refuses :: "nat \<Rightarrow> string \<Rightarrow> int outcome" where
  "first_refuses attempt u =
     (if u = ''https://go.getblock.io/c532b1037c924be386735ccbcd2f3afa''
      then RpcError else RpcResult 42)"

text \<open>The ids of the sessions that one run of the earlier sweeper removes.\<close>

definition swept_5min :: "nat \<Rightarrow> db \<Rightarrow> string set" where
  "swept_5min now st = session_uuid ` set (expiredSessions SESSION_TIMEOUT_MINUTES_5min now st)"

section \<open>The first payment monitor\<close>

text \<open>
  The monitor written before reservations and the pool existed: one endpoint, the index
  holds \<open>Pending\<close> sessions only, and \<^verbatim>\<open>fulfillOrder\<close> is \<open>fulfillOrder_legacy\<close>
  above. Its functions have the suffix \<open>_legacy\<close>; its main loop is
  \<^verbatim>\<open>monitorPayments\<close>. The random draws of one cycle are one parameter.
\<close>

definition GETBLOCK_URL :: string where
  "GETBLOCK_URL = ''https://go.getblock.io/c532b1037c924be386735ccbcd2f3afa''"

definition rpcCall_legacy :: "'r outcome \<Rightarrow> 'r option" where
  "rpcCall_legacy answer =
     (case answer of RpcResult r \<Rightarrow> Some r | RpcError \<Rightarrow> None | TransportError \<Rightarrow> None)"

definition loadPendingPayments_legacy :: "db \<Rightarrow> pending" where
  "loadPendingPayments_legacy st =
     fold (\<lambda>s. AList.update (toFixed8 (amount_due s)) (session_uuid s, quantity s))
       (filter (\<lambda>s. status s = Pending) (sessions st)) []"

definition scan_vout_legacy :: "(nat \<Rightarrow> int) \<Rightarrow> string \<Rightarrow> vout \<Rightarrow> db \<times> pending \<Rightarrow> db \<times> pending" where
  "scan_vout_legacy rnd t v m =
     (if PAYMENT_ADDRESS \<in> set (addresses v) then
        (let amountPaid = toFixed8 (vout_value v) in
         case map_of (snd m) amountPaid of
           None \<Rightarrow> m
         | Some session \<Rightarrow>
             (fulfillOrder_legacy rnd session t (fst m), AList.delete amountPaid (snd m)))
      else m)"

definition scanBlock_legacy :: "(nat \<Rightarrow> int) \<Rightarrow> upstream \<Rightarrow> int \<Rightarrow> db \<times> pending \<Rightarrow> db \<times> pending" where
  "scanBlock_legacy rnd up blockHeight m =
     (case rpcCall_legacy (getblockhash up blockHeight 0 GETBLOCK_URL) of
        None \<Rightarrow> m
      | Some blockHash \<Rightarrow>
          if blockHash = [] then m
          else
            (case rpcCall_legacy (getblock up blockHash 0 GETBLOCK_URL) of
               None \<Rightarrow> m
             | Some b \<Rightarrow> fold (\<lambda>x. fold (scan_vout_legacy rnd (txid x)) (vout x)) b m))"

definition scan_and_persist_legacy ::
  "(nat \<Rightarrow> int) \<Rightarrow> upstream \<Rightarrow> int \<Rightarrow> db \<times> pending \<Rightarrow> db \<times> pending" where
  "scan_and_persist_legacy rnd up height m =
     (let m1 = scanBlock_legacy rnd up height m
      in (persist_height height (fst m1), snd m1))"

definition monitorPayments :: "(nat \<Rightarrow> int) \<Rightarrow> upstream \<Rightarrow> db \<times> pending \<Rightarrow> db \<times> pending" where
  "monitorPayments rnd up m =
     (let st = fst m; idx = loadPendingPayments_legacy st in
      if idx = [] then (st, idx)
      else
        (case rpcCall_legacy (getblockcount up 0 GETBLOCK_URL) of
           None \<Rightarrow> (st, idx)
         | Some currentHeight \<Rightarrow>
             if currentHeight = 0 then (st, idx)
             else
               (let (st1, lastScanned) =
                      (case last_scanned_payment_block st of
                         None \<Rightarrow>
                           (st\<lparr>last_scanned_payment_block := Some (currentHeight - 100)\<rparr>,
                            currentHeight - 100)
                       | Some l \<Rightarrow> (st, l));
                    startBlock = lastScanned + 1
                in if startBlock > currentHeight then (st1, idx)
                   else fold (scan_and_persist_legacy rnd up) [startBlock..currentHeight]
                          (st1, idx))))"

definition payment_scanner ::
  "((nat \<Rightarrow> int) \<times> upstream) list \<Rightarrow> db \<times> pending \<Rightarrow> db \<times> pending" where
  "payment_scanner cycles m = fold (\<lambda>(rnd, up). monitorPayments rnd up) cycles m"

section \<open>The sweeper: which sessions go, and what happens to their items\<close>

lemma released_released:
  "released U (released V n) = released (V \<union> U) n"
  by (auto simp: released_def)

lemma release_and_delete_eq:
  "release_and_delete a st =
     st\<lparr>nfts := map (released {session_uuid a}) (nfts st),
        sessions := filter (\<lambda>s. session_uuid s \<noteq> session_uuid a) (sessions st)\<rparr>"
  by (simp add: release_and_delete_def releaseStmt_def deleteStmt_def released_def)

lemma fold_release_and_delete:
  "fold release_and_delete ss st =
     st\<lparr>nfts := map (released (session_uuid ` set ss)) (nfts st),
        sessions := filter (\<lambda>s. session_uuid s \<notin> session_uuid ` set ss) (sessions st)\<rparr>"
proof (induction ss arbitrary: st)
  case Nil
  show ?case by (simp add: released_def)
next
  case (Cons a ss)
  have "fold release_and_delete (a # ss) st = fold release_and_delete ss (release_and_delete a st)"
    by simp
  also have "\<dots> = st\<lparr>nfts := map (released (session_uuid ` set (a # ss))) (nfts st),
        sessions := filter (\<lambda>s. session_uuid s \<notin> session_uuid ` set (a # ss)) (sessions st)\<rparr>"
    unfolding Cons.IH release_and_delete_eq
    by (simp add: released_released conj_commute o_def)
  finally show ?case .
qed

lemma cleanup_nfts:
  "nfts (cleanupExpiredSessions now st) = map (released (swept now st)) (nfts st)"
  by (simp add: cleanupExpiredSessions_def Let_def fold_release_and_delete swept_def
      released_released o_def)

lemma cleanup_sessions:
  "sessions (cleanupExpiredSessions now st) =
     filter (\<lambda>s. session_uuid s \<notin> swept now st) (sessions st)"
  by (auto simp: cleanupExpiredSessions_def Let_def fold_release_and_delete swept_def
      intro: filter_cong)

lemma abandoned_in_swept:
  assumes "s \<in> set (sessions st)" "status s = PaymentPending" "updated_at s + 24 * 3600 < now"
  shows "session_uuid s \<in> swept now st"
proof (cases "session_uuid s \<in> session_uuid ` set (expiredSessions SESSION_TIMEOUT_MINUTES now st)")
  case True
  then show ?thesis by (simp add: swept_def)
next
  case False
  with assms have "s \<in> set (abandonedSessions now
        (fold release_and_delete (expiredSessions SESSION_TIMEOUT_MINUTES now st) st))"
    by (simp add: abandonedSessions_def fold_release_and_delete)
  then show ?thesis by (auto simp: swept_def)
qed

lemma expired_in_swept:
  assumes "s \<in> set (sessions st)" "status s = Pending"
    "created_at s + SESSION_TIMEOUT_MINUTES * 60 < now"
  shows "session_uuid s \<in> swept now st"
  using assms by (auto simp: swept_def expiredSessions_def)

lemma swept_is_due:
  assumes "u \<in> swept now st"
  shows "\<exists>r \<in> set (sessions st). session_uuid r = u \<and>
           (status r = Pending \<and> created_at r + SESSION_TIMEOUT_MINUTES * 60 < now \<or>
            status r = PaymentPending \<and> updated_at r + 24 * 3600 < now)"
  using assms
  by (auto simp: swept_def expiredSessions_def abandonedSessions_def fold_release_and_delete)

lemma later_sweeper_recovers_abandoned:
  assumes "s \<in> set (sessions st)" and "status s = PaymentPending"
    and "updated_at s + 24 * 3600 < now"
  shows "session_uuid s \<notin> session_uuid ` set (sessions (cleanupExpiredSessions now st)) \<and>
         length (nfts (cleanupExpiredSessions now st)) = length (nfts st) \<and>
         (\<forall>i < length (nfts st).
            session_id (nfts st ! i) = Some (session_uuid s) \<and> \<not> claimed (nfts st ! i) \<longrightarrow>
            nfts (cleanupExpiredSessions now st) ! i = (nfts st ! i)\<lparr>session_id := None\<rparr>)"
proof -
  have u: "session_uuid s \<in> swept now st"
    using assms by (rule abandoned_in_swept)
  show ?thesis
    using u by (auto simp: cleanup_nfts cleanup_sessions released_def)
qed

lemma later_sweeper_expires_pending:
  assumes "distinct (map session_uuid (sessions st))" and "s \<in> set (sessions st)"
    and "status s = Pending"
  shows "SESSION_TIMEOUT_MINUTES = 10 \<and>
         (s \<in> set (sessions (cleanupExpiredSessions now st)) \<longleftrightarrow>
            \<not> created_at s + SESSION_TIMEOUT_MINUTES * 60 < now) \<and>
         length (nfts (cleanupExpiredSessions now st)) = length (nfts st) \<and>
         (\<forall>i < length (nfts st). session_id (nfts st ! i) = Some (session_uuid s) \<longrightarrow>
            nfts (cleanupExpiredSessions now st) ! i =
              (if created_at s + SESSION_TIMEOUT_MINUTES * 60 < now \<and> \<not> claimed (nfts st ! i)
               then (nfts st ! i)\<lparr>session_id := None\<rparr> else nfts st ! i))"
proof -
  have inj: "inj_on session_uuid (set (sessions st))"
    using assms(1) by (simp add: distinct_map)
  have young: "session_uuid s \<notin> swept now st" if "\<not> created_at s + SESSION_TIMEOUT_MINUTES * 60 < now"
  proof
    assume "session_uuid s \<in> swept now st"
    then obtain r where r: "r \<in> set (sessions st)" "session_uuid r = session_uuid s"
      "status r = Pending \<and> created_at r + SESSION_TIMEOUT_MINUTES * 60 < now \<or>
            status r = PaymentPending \<and> updated_at r + 24 * 3600 < now"
      using swept_is_due by blast
    from inj r(1,2) assms(2) have "r = s" by (auto dest: inj_onD)
    with r(3) assms(3) that show False by simp
  qed
  have old: "session_uuid s \<in> swept now st" if "created_at s + SESSION_TIMEOUT_MINUTES * 60 < now"
    using assms(2,3) that by (rule expired_in_swept)
  show ?thesis
    using young old assms(2)
    by (auto simp: cleanup_nfts cleanup_sessions released_def SESSION_TIMEOUT_MINUTES_def)
qed


section \<open>The status handler\<close>

lemma find_unique_row:
  assumes "distinct (map f xs)" and "s \<in> set xs"
  shows "find (\<lambda>x. f x = f s) xs = Some s"
  using assms by (induction xs) auto

lemma later_status_payment_pending:
  assumes "distinct (map session_uuid (sessions st))" and "s \<in> set (sessions st)"
    and "status s = PaymentPending"
  shows "check_payment_status now_ms (session_uuid s) st =
           StatusPaymentPending ''Payment detected! Waiting for blockchain confirmation...''
             (payment_txid s)"
  using find_unique_row [OF assms(1,2)] assms(3)
  by (simp add: check_payment_status_def)

text \<open>The handler of the earlier \<^verbatim>\<open>server.js\<close> has no such branch.\<close>

lemma check_payment_status_5min_payment_pending:
  assumes "distinct (map session_uuid (sessions st))" and "s \<in> set (sessions st)"
    and "status s = PaymentPending"
  shows "check_payment_status_5min now_ms (session_uuid s) st = StatusPending"
  using find_unique_row [OF assms(1,2)] assms(3)
  by (simp add: check_payment_status_5min_def)

section \<open>Creating a payment intent: validation and rollback\<close>

lemma intent_transaction_error:
  "intent_transaction rnd sessionId now q st \<noteq> Inl InvalidQuantity"
  by (auto simp: intent_transaction_def Let_def insert_session_def sql_limit_def
      split: sum.splits if_splits)

lemma create_payment_intent_valid:
  "\<not> invalid_quantity (Some q) \<Longrightarrow>
   create_payment_intent rnd sessionId now (Some q) st =
     intent_reply (db_transaction (intent_transaction rnd sessionId now q) st)"
  by (simp add: create_payment_intent_def)

lemma intent_reply_not_invalid:
  "snd (intent_reply (db_transaction (intent_transaction rnd sessionId now q) st))
     \<noteq> IntentError InvalidQuantity"
  using intent_transaction_error [of rnd sessionId now q st]
  by (auto simp: intent_reply_def db_transaction_def split: sum.splits prod.splits)

text \<open>
  C9. The handler answers \<^verbatim>\<open>Invalid quantity (must be 1-20).\<close> exactly when the
  quantity is missing, zero, below 1 or above 20; the number 2.5 is no integer, passes this
  test, and the handler's answer for it is the outcome of the reservation transaction.
\<close>

theorem quantity_validation:
  "(snd (create_payment_intent rnd sessionId now body st) = IntentError InvalidQuantity \<longleftrightarrow>
      (case body of None \<Rightarrow> True | Some q \<Rightarrow> q = 0 \<or> q < 1 \<or> q > 20)) \<and>
   (5 / 2 :: rat) \<notin> \<int> \<and>
   \<not> invalid_quantity (Some (5 / 2)) \<and>
   create_payment_intent rnd sessionId now (Some (5 / 2)) st =
     intent_reply (db_transaction (intent_transaction rnd sessionId now (5 / 2)) st)"
proof -
  have a: "snd (create_payment_intent rnd sessionId now body st) = IntentError InvalidQuantity \<longleftrightarrow>
      (case body of None \<Rightarrow> True | Some q \<Rightarrow> q = 0 \<or> q < 1 \<or> q > 20)"
  proof (cases body)
    case None
    then show ?thesis by (simp add: create_payment_intent_def)
  next
    case (Some q)
    show ?thesis
    proof (cases "invalid_quantity (Some q)")
      case True
      then show ?thesis using Some by (simp add: create_payment_intent_def invalid_quantity_def)
    next
      case False
      then show ?thesis
        using Some intent_reply_not_invalid [of rnd sessionId now q st]
        by (simp add: create_payment_intent_def invalid_quantity_def)
    qed
  qed
  have b: "(5 / 2 :: rat) \<notin> \<int>"
  proof
    assume "(5 / 2 :: rat) \<in> \<int>"
    then obtain z :: int where "(5 / 2 :: rat) = of_int z" by (rule Ints_cases)
    then have "(of_int (2 * z) :: rat) = of_int 5" by simp
    then have "2 * z = 5" by (simp only: of_int_eq_iff)
    then show False by presburger
  qed
  have c: "\<not> invalid_quantity (Some (5 / 2))"
    by (simp add: invalid_quantity_def)
  show ?thesis using a b c create_payment_intent_valid [OF c] by blast
qed

theorem quantity_validation_witness:
  "snd (create_payment_intent (\<lambda>i. int i) ''0e'' 7 (Some (5 / 2))
          (import_nfts [(1, ''a''), (2, ''b''), (3, ''c'')])) = IntentError SqliteMismatch \<and>
   snd (create_payment_intent (\<lambda>i. int i) ''0e'' 7 (Some 21)
          (import_nfts [(1, ''a''), (2, ''b''), (3, ''c'')])) = IntentError InvalidQuantity"
proof -
  have t: "intent_transaction (\<lambda>i. int i) ''0e'' 7 (5 / 2)
             (import_nfts [(1, ''a''), (2, ''b''), (3, ''c'')]) = Inl SqliteMismatch"
    by code_simp
  have r: "snd (intent_reply (db_transaction (\<lambda>st. Inl SqliteMismatch)
             (import_nfts [(1, ''a''), (2, ''b''), (3, ''c'')]))) = IntentError SqliteMismatch"
    by (simp add: intent_reply_def db_transaction_def)
  have "snd (create_payment_intent (\<lambda>i. int i) ''0e'' 7 (Some (5 / 2))
          (import_nfts [(1, ''a''), (2, ''b''), (3, ''c'')])) = IntentError SqliteMismatch"
    using quantity_validation [of "\<lambda>i. int i" "''0e''" 7 "Some (5 / 2)"
        "import_nfts [(1, ''a''), (2, ''b''), (3, ''c'')]"] t
    by (simp add: intent_reply_def db_transaction_def)
  moreover have "snd (create_payment_intent (\<lambda>i. int i) ''0e'' 7 (Some 21)
          (import_nfts [(1, ''a''), (2, ''b''), (3, ''c'')])) = IntentError InvalidQuantity"
    using quantity_validation [of "\<lambda>i. int i" "''0e''" 7 "Some 21"
        "import_nfts [(1, ''a''), (2, ''b''), (3, ''c'')]"]
    by simp
  ultimately show ?thesis by simp
qed

text \<open>
  A quantity that is no integer never yields a session: the transaction it enters aborts
  and is rolled back.
\<close>

lemma non_integer_quantity_aborts:
  assumes "of_int \<lfloor>q\<rfloor> \<noteq> q"
  shows "\<exists>e. create_payment_intent rnd sessionId now (Some q) st = (st, IntentError e)"
  using assms
  by (auto simp: create_payment_intent_def intent_reply_def db_transaction_def
      intent_transaction_def Let_def insert_session_def sql_limit_def
      split: sum.splits if_splits)

text \<open>
  C10. Whenever the handler answers with an error, the store is the one it started from:
  the session row and the reservations that the transaction had written before it threw
  are gone. So when the generated id was not in the store, no session row and no item
  carries it afterwards.
\<close>

theorem intent_error_rolls_back:
  assumes "create_payment_intent rnd sessionId now body st = (st', IntentError e)"
  shows "st' = st \<and>
         ((\<forall>s \<in> set (sessions st). session_uuid s \<noteq> sessionId) \<longrightarrow>
            (\<forall>s \<in> set (sessions st'). session_uuid s \<noteq> sessionId)) \<and>
         ((\<forall>n \<in> set (nfts st). session_id n \<noteq> Some sessionId) \<longrightarrow>
            (\<forall>n \<in> set (nfts st'). session_id n \<noteq> Some sessionId))"
proof -
  have "st' = st"
    using assms
    by (auto simp: create_payment_intent_def intent_reply_def db_transaction_def
        split: option.splits if_splits sum.splits prod.splits)
  then show ?thesis by simp
qed


theorem intent_error_rolls_back_witness:
  "create_payment_intent (\<lambda>i. int i) ''0e'' 7 (Some (3 / 2)) example_db =
     (example_db, IntentError SqliteMismatch) \<and>
   map session_uuid (sessions example_db) = [''0a'', ''0b'', ''0c'', ''0d''] \<and>
   map session_id (nfts example_db) =
     [Some ''0a'', Some ''0b'', Some ''0b'', Some ''0c'', None, Some ''0d'', None]"
proof -
  have r: "snd (create_payment_intent (\<lambda>i. int i) ''0e'' 7 (Some (3 / 2)) example_db) =
             IntentError SqliteMismatch"
    by code_simp
  have f: "map session_uuid (sessions example_db) = [''0a'', ''0b'', ''0c'', ''0d'']"
    "map session_id (nfts example_db) =
       [Some ''0a'', Some ''0b'', Some ''0b'', Some ''0c'', None, Some ''0d'', None]"
    by (simp_all add: example_db_def example_nfts_def example_old_def example_young_def
        example_paid_def example_done_def)
  have e: "create_payment_intent (\<lambda>i. int i) ''0e'' 7 (Some (3 / 2)) example_db =
             (fst (create_payment_intent (\<lambda>i. int i) ''0e'' 7 (Some (3 / 2)) example_db),
              IntentError SqliteMismatch)"
    using r by (simp add: prod_eq_iff)
  have "fst (create_payment_intent (\<lambda>i. int i) ''0e'' 7 (Some (3 / 2)) example_db) = example_db"
    by (rule conjunct1 [OF intent_error_rolls_back [OF e]])
  with e f show ?thesis by simp
qed

section \<open>What a successful intent writes\<close>

lemma length_order_by_random: "length (order_by_random rnd xs) = length xs"
  by (simp add: order_by_random_def)

lemma set_order_by_random: "set (order_by_random rnd xs) = set xs"
proof -
  have "map snd (zip (map rnd [0..<length xs]) xs) = xs"
    by (rule map_snd_zip) simp
  then have "snd ` set (zip (map rnd [0..<length xs]) xs) = set xs"
    by (metis set_map)
  then show ?thesis
    by (simp add: order_by_random_def)
qed

lemma distinct_order_by_random:
  assumes "distinct xs"
  shows "distinct (order_by_random rnd xs)"
proof (rule card_distinct)
  show "card (set (order_by_random rnd xs)) = length (order_by_random rnd xs)"
    using assms by (simp add: set_order_by_random length_order_by_random distinct_card)
qed

lemma length_filter_disj:
  "length (filter (\<lambda>x. P x \<or> Q x) xs) =
     length (filter P xs) + length (filter (\<lambda>x. \<not> P x \<and> Q x) xs)"
  by (induction xs) auto

lemma length_filter_chosen:
  assumes "distinct (map nft_id xs)" and "set ch \<subseteq> set xs" and "distinct ch"
  shows "length (filter (\<lambda>n. nft_id n \<in> nft_id ` set ch) xs) = length ch"
proof -
  have inj: "inj_on nft_id (set xs)" and dx: "distinct xs"
    using assms(1) by (simp_all add: distinct_map)
  have "{n. nft_id n \<in> nft_id ` set ch} \<inter> set xs = set ch"
    using inj assms(2) by (auto dest: inj_onD)
  then have "length (filter (\<lambda>n. nft_id n \<in> nft_id ` set ch) xs) = card (set ch)"
    using dx by (simp add: distinct_length_filter)
  then show ?thesis using assms(3) by (simp add: distinct_card)
qed

lemma chosen_is_row:
  assumes "distinct (map nft_id xs)" and "set ch \<subseteq> set xs" and "n \<in> set xs"
    and "nft_id n \<in> nft_id ` set ch"
  shows "n \<in> set ch"
proof -
  have inj: "inj_on nft_id (set xs)" using assms(1) by (simp add: distinct_map)
  from assms(4) obtain c where c: "c \<in> set ch" "nft_id n = nft_id c" by auto
  with assms(2,3) inj have "n = c" by (auto dest: inj_onD)
  with c show ?thesis by simp
qed

lemma intent_transaction_success:
  assumes ok: "intent_transaction rnd sessionId now q st = Inr (st2, sid2, amt)"
    and d: "distinct (map nft_id (nfts st))" and q0: "0 \<le> q"
  obtains ch where
    "sid2 = sessionId" "amt = uniqueAmount_of q (seq_of st + 1)"
    "st2 = st\<lparr>sessions := sessions st @ [new_session sessionId amt q now],
                sqlite_sequence := Some (seq_of st + 1),
                nfts := map (reserve_row sessionId ch) (nfts st)\<rparr>"
    "ch \<subseteq> set (nfts st)" "\<forall>n \<in> ch. available n"
    "rat_of_nat (length (filter (\<lambda>n. n \<in> ch) (nfts st))) = q"
    "\<forall>n \<in> set (nfts st). session_id n \<noteq> Some sessionId"
    "\<forall>s \<in> set (sessions st). session_uuid s \<noteq> sessionId \<and> amount_due s \<noteq> amt"
proof -
  define cands where "cands = filter available (nfts st)"
  define chosen where "chosen = take (nat \<lfloor>q\<rfloor>) (order_by_random rnd cands)"
  define st1 where "st1 = st\<lparr>sessions := sessions st @
        [new_session sessionId (uniqueAmount_of q (seq_of st + 1)) q now],
        sqlite_sequence := Some (seq_of st + 1)\<rparr>"
  from ok have enough: "\<not> rat_of_nat (length cands) < q"
    by (auto simp: intent_transaction_def Let_def cands_def split: if_splits)
  from ok have ins: "insert_session sessionId (uniqueAmount_of q (seq_of st + 1)) q now st = Inr st1"
    by (auto simp: intent_transaction_def Let_def insert_session_def st1_def new_session_def
        split: if_splits sum.splits)
  then have fresh: "\<forall>s \<in> set (sessions st). session_uuid s \<noteq> sessionId \<and>
      amount_due s \<noteq> uniqueAmount_of q (seq_of st + 1)"
    by (auto simp: insert_session_def list_ex_iff split: if_splits)
  have n1: "nfts st1 = nfts st" by (simp add: st1_def)
  from ok ins enough have lim: "sql_limit q (order_by_random rnd cands) = Inr chosen \<and> of_int \<lfloor>q\<rfloor> = q"
    using q0
    by (auto simp: intent_transaction_def Let_def cands_def chosen_def n1 sql_limit_def
        split: if_splits sum.splits)
  then have qi: "of_int \<lfloor>q\<rfloor> = q" by simp
  from ok ins enough lim have res: "st2 = reserve_ids sessionId (map nft_id chosen) st1"
    "sid2 = sessionId" "amt = uniqueAmount_of q (seq_of st + 1)"
    "rat_of_nat (length (filter (\<lambda>n. session_id n = Some sessionId)
        (nfts (reserve_ids sessionId (map nft_id chosen) st1)))) = q"
    by (auto simp: intent_transaction_def Let_def cands_def n1 split: if_splits)
  have dc: "distinct cands" using d by (simp add: cands_def distinct_map)
  have sub: "set chosen \<subseteq> set (nfts st)"
    using set_take_subset [of "nat \<lfloor>q\<rfloor>" "order_by_random rnd cands"]
    by (auto simp: chosen_def set_order_by_random cands_def)
  have av: "\<forall>n \<in> set chosen. available n"
    using set_take_subset [of "nat \<lfloor>q\<rfloor>" "order_by_random rnd cands"]
    by (auto simp: chosen_def set_order_by_random cands_def)
  have dch: "distinct chosen"
    by (simp add: chosen_def distinct_take distinct_order_by_random dc)
  have "rat_of_nat (nat \<lfloor>q\<rfloor>) = q"
    using q0 qi by (metis of_int_of_nat_eq of_nat_nat zero_le_floor)
  moreover have "nat \<lfloor>q\<rfloor> \<le> length cands"
  proof -
    from enough have "\<lfloor>q\<rfloor> \<le> \<lfloor>rat_of_nat (length cands)\<rfloor>"
      by (intro floor_mono) simp
    then show ?thesis by simp
  qed
  ultimately have lch: "rat_of_nat (length chosen) = q"
    by (simp add: chosen_def length_order_by_random min_def)
  have rows: "map (\<lambda>n. if nft_id n \<in> set (map nft_id chosen) then n\<lparr>session_id := Some sessionId\<rparr> else n) (nfts st)
      = map (reserve_row sessionId (set chosen)) (nfts st)"
    using chosen_is_row [OF d sub] by (auto simp: reserve_row_def)
  have cnt: "length (filter (\<lambda>n. n \<in> set chosen) (nfts st)) = length chosen"
  proof -
    have "filter (\<lambda>n. n \<in> set chosen) (nfts st) = filter (\<lambda>n. nft_id n \<in> nft_id ` set chosen) (nfts st)"
      using chosen_is_row [OF d sub] by (auto intro: filter_cong)
    then show ?thesis using length_filter_chosen [OF d sub dch] by simp
  qed
  have total: "length (filter (\<lambda>n. session_id n = Some sessionId)
        (nfts (reserve_ids sessionId (map nft_id chosen) st1)))
      = length (filter (\<lambda>n. n \<in> set chosen) (nfts st)) +
        length (filter (\<lambda>n. n \<notin> set chosen \<and> session_id n = Some sessionId) (nfts st))"
  proof -
    have n2: "nfts (reserve_ids sessionId (map nft_id chosen) st1) =
        map (reserve_row sessionId (set chosen)) (nfts st)"
      using rows by (simp add: reserve_ids_def n1)
    have p: "(\<lambda>n. session_id n = Some sessionId) \<circ> reserve_row sessionId (set chosen) =
        (\<lambda>n. n \<in> set chosen \<or> session_id n = Some sessionId)"
      by (auto simp: fun_eq_iff reserve_row_def)
    have "length (filter (\<lambda>n. session_id n = Some sessionId)
        (nfts (reserve_ids sessionId (map nft_id chosen) st1)))
      = length (filter (\<lambda>n. n \<in> set chosen \<or> session_id n = Some sessionId) (nfts st))"
      unfolding n2 length_filter_map p ..
    also have "\<dots> = length (filter (\<lambda>n. n \<in> set chosen) (nfts st)) +
        length (filter (\<lambda>n. n \<notin> set chosen \<and> session_id n = Some sessionId) (nfts st))"
      by (rule length_filter_disj)
    finally show ?thesis .
  qed
  have none: "\<forall>n \<in> set (nfts st). session_id n \<noteq> Some sessionId"
  proof -
    from res(4) total cnt
    have "rat_of_nat (length chosen +
        length (filter (\<lambda>n. n \<notin> set chosen \<and> session_id n = Some sessionId) (nfts st))) = q"
      by simp
    with lch have "rat_of_nat (length chosen +
        length (filter (\<lambda>n. n \<notin> set chosen \<and> session_id n = Some sessionId) (nfts st))) =
        rat_of_nat (length chosen)"
      by simp
    then have "length chosen +
        length (filter (\<lambda>n. n \<notin> set chosen \<and> session_id n = Some sessionId) (nfts st)) =
        length chosen"
      by (simp only: of_nat_eq_iff)
    then have "length (filter (\<lambda>n. n \<notin> set chosen \<and> session_id n = Some sessionId) (nfts st)) = 0"
      by simp
    then have "\<forall>n \<in> set (nfts st). \<not> (n \<notin> set chosen \<and> session_id n = Some sessionId)"
      by (simp add: filter_empty_conv)
    with av show ?thesis by (auto simp: available_def)
  qed
  show ?thesis
  proof (rule that [of "set chosen"])
    show "st2 = st\<lparr>sessions := sessions st @ [new_session sessionId amt q now],
                sqlite_sequence := Some (seq_of st + 1),
                nfts := map (reserve_row sessionId (set chosen)) (nfts st)\<rparr>"
      using res(1,3) rows by (simp add: reserve_ids_def st1_def)
    show "rat_of_nat (length (filter (\<lambda>n. n \<in> set chosen) (nfts st))) = q"
      using cnt lch by simp
    show "sid2 = sessionId" by (rule res(2))
    show "amt = uniqueAmount_of q (seq_of st + 1)" by (rule res(3))
    show "set chosen \<subseteq> set (nfts st)" by (rule sub)
    show "\<forall>n \<in> set chosen. available n" by (rule av)
    show "\<forall>n \<in> set (nfts st). session_id n \<noteq> Some sessionId" by (rule none)
    show "\<forall>s \<in> set (sessions st). session_uuid s \<noteq> sessionId \<and> amount_due s \<noteq> amt"
      using fresh res(3) by simp
  qed
qed


section \<open>The reservation count is invariant\<close>

lemma length_filter_map_cong:
  assumes "\<And>n. n \<in> set xs \<Longrightarrow> P (f n) = Q n"
  shows "length (filter (P \<circ> f) xs) = length (filter Q xs)"
  using assms by (induction xs) auto

lemma reserved_count_released:
  assumes "u \<notin> U"
  shows "reserved_count (st\<lparr>nfts := map (released U) (nfts st), sessions := ss\<rparr>) u = reserved_count st u"
  unfolding reserved_count_def using assms
  by (auto simp: released_def split: if_splits intro!: length_filter_map_cong)

lemma cleanup_5min_eq:
  "cleanupExpiredSessions_5min now st =
     st\<lparr>nfts := map (released (session_uuid ` set (expiredSessions SESSION_TIMEOUT_MINUTES_5min now st))) (nfts st),
        sessions := filter (\<lambda>s. session_uuid s \<notin> session_uuid ` set (expiredSessions SESSION_TIMEOUT_MINUTES_5min now st)) (sessions st)\<rparr>"
  by (simp add: cleanupExpiredSessions_5min_def fold_release_and_delete)

lemma cleanup_eq:
  "cleanupExpiredSessions now st =
     st\<lparr>nfts := map (released (swept now st)) (nfts st),
        sessions := filter (\<lambda>s. session_uuid s \<notin> swept now st) (sessions st)\<rparr>"
proof -
  have "cleanupExpiredSessions now st =
     st\<lparr>nfts := nfts (cleanupExpiredSessions now st),
        sessions := sessions (cleanupExpiredSessions now st)\<rparr>"
    by (simp add: cleanupExpiredSessions_def Let_def fold_release_and_delete)
  then show ?thesis by (simp only: cleanup_nfts cleanup_sessions)
qed

lemma cleanup_5min_preserves_inv:
  assumes "reservation_inv st"
  shows "reservation_inv (cleanupExpiredSessions_5min now st)"
  using assms unfolding cleanup_5min_eq reservation_inv_def
  by (auto simp: reserved_count_released)

lemma cleanup_preserves_inv:
  assumes "reservation_inv st"
  shows "reservation_inv (cleanupExpiredSessions now st)"
  using assms unfolding cleanup_eq reservation_inv_def
  by (auto simp: reserved_count_released)

lemma fulfillOrder_preserves_inv:
  assumes "reservation_inv st"
  shows "reservation_inv (fulfillOrder session t st)"
proof -
  have c: "reserved_count (fulfillOrder session t st) u = reserved_count st u" if "u \<noteq> fst session" for u
    using that unfolding reserved_count_def fulfillOrder_def Let_def releaseStmt_def
    by (auto split: if_splits intro!: length_filter_map_cong)
  have orig: "\<exists>r \<in> set (sessions st). session_uuid r = session_uuid s \<and>
      (session_uuid s \<noteq> fst session \<longrightarrow> r = s)"
    if "s \<in> set (sessions (fulfillOrder session t st))" for s
    using that unfolding fulfillOrder_def Let_def releaseStmt_def
    by (auto split: if_splits)
  have f: "session_uuid s = fst session \<longrightarrow> status s = Failed \<or> status s = Complete"
    if "s \<in> set (sessions (fulfillOrder session t st))" for s
    using that unfolding fulfillOrder_def Let_def releaseStmt_def
    by (auto split: if_splits)
  show ?thesis
    unfolding reservation_inv_def
  proof (intro ballI impI)
    fix s assume sin: "s \<in> set (sessions (fulfillOrder session t st))"
      and p: "status s = Pending \<or> status s = PaymentPending"
    from f [OF sin] p have ne: "session_uuid s \<noteq> fst session" by auto
    with orig [OF sin] have "s \<in> set (sessions st)" by auto
    with assms p have "rat_of_nat (reserved_count st (session_uuid s)) = quantity s"
      by (auto simp: reservation_inv_def)
    with c [OF ne] show "rat_of_nat (reserved_count (fulfillOrder session t st) (session_uuid s)) = quantity s"
      by simp
  qed
qed

lemma find_Some_unique:
  assumes "distinct (map f xs)" and "find (\<lambda>x. f x = k) xs = Some s" and "r \<in> set xs" and "f r = k"
  shows "r = s"
proof -
  from assms(2) have "s \<in> set xs" "f s = k"
    by (auto simp: find_Some_iff)
  with assms(1,3,4) show ?thesis
    by (auto simp: distinct_map dest: inj_onD)
qed

lemma markPaymentPending_preserves_inv:
  assumes "distinct (map session_uuid (sessions st))" and "reservation_inv st"
  shows "reservation_inv (markPaymentPending sessionId t now st)"
proof (cases "find (\<lambda>s. session_uuid s = sessionId) (sessions st)")
  case None
  then show ?thesis using assms(2) by (simp add: markPaymentPending_def)
next
  case (Some s0)
  show ?thesis
  proof (cases "status s0 = Pending")
    case False
    then show ?thesis using assms(2) Some by (simp add: markPaymentPending_def)
  next
    case True
    have c: "reserved_count (markPaymentPending sessionId t now st) u = reserved_count st u" for u
      using Some True by (simp add: markPaymentPending_def reserved_count_def)
    show ?thesis
      unfolding reservation_inv_def c
    proof (intro ballI impI)
      fix s assume "s \<in> set (sessions (markPaymentPending sessionId t now st))"
      then obtain r where r: "r \<in> set (sessions st)"
        "s = (if session_uuid r = sessionId
              then r\<lparr>status := PaymentPending, payment_txid := Some t, updated_at := now\<rparr> else r)"
        using Some True by (auto simp: markPaymentPending_def)
      assume p: "status s = Pending \<or> status s = PaymentPending"
      show "rat_of_nat (reserved_count st (session_uuid s)) = quantity s"
      proof (cases "session_uuid r = sessionId")
        case True
        with find_Some_unique [OF assms(1) Some r(1)] have "r = s0" by simp
        with \<open>status s0 = Pending\<close> r assms(2) True show ?thesis
          by (auto simp: reservation_inv_def)
      next
        case False
        with r p assms(2) show ?thesis by (auto simp: reservation_inv_def)
      qed
    qed
  qed
qed

lemma intent_preserves_inv:
  assumes "distinct (map nft_id (nfts st))" and "reservation_inv st"
  shows "reservation_inv (fst (create_payment_intent rnd sessionId now body st))"
proof (cases "snd (create_payment_intent rnd sessionId now body st)")
  case (IntentError e)
  then have "create_payment_intent rnd sessionId now body st =
      (fst (create_payment_intent rnd sessionId now body st), IntentError e)"
    by (simp add: prod_eq_iff)
  from intent_error_rolls_back [OF this] assms(2) show ?thesis by simp
next
  case (IntentSuccess sid2 a addr)
  then obtain q where body: "body = Some q" and v: "\<not> invalid_quantity (Some q)"
    by (auto simp: create_payment_intent_def split: option.splits if_splits)
  from v have q0: "0 \<le> q" by (simp add: invalid_quantity_def)
  from IntentSuccess body v obtain st2 amt where
    ok: "intent_transaction rnd sessionId now q st = Inr (st2, sid2, amt)"
    and st2: "fst (create_payment_intent rnd sessionId now body st) = st2"
    by (auto simp: create_payment_intent_def intent_reply_def db_transaction_def
        split: sum.splits prod.splits)
  from intent_transaction_success [OF ok assms(1) q0] obtain ch where
    ch: "st2 = st\<lparr>sessions := sessions st @ [new_session sessionId amt q now],
                sqlite_sequence := Some (seq_of st + 1),
                nfts := map (reserve_row sessionId ch) (nfts st)\<rparr>"
      "\<forall>n \<in> ch. available n"
      "rat_of_nat (length (filter (\<lambda>n. n \<in> ch) (nfts st))) = q"
      "\<forall>n \<in> set (nfts st). session_id n \<noteq> Some sessionId"
      "\<forall>s \<in> set (sessions st). session_uuid s \<noteq> sessionId \<and> amount_due s \<noteq> amt"
    by metis
  have other: "reserved_count st2 u = reserved_count st u" if "u \<noteq> sessionId" for u
    unfolding reserved_count_def ch(1) using that ch(2)
    by (auto simp: reserve_row_def available_def split: if_splits intro!: length_filter_map_cong)
  have own: "reserved_count st2 sessionId = length (filter (\<lambda>n. n \<in> ch) (nfts st))"
    unfolding reserved_count_def ch(1) using ch(2,4)
    by (auto simp: reserve_row_def available_def split: if_splits intro!: length_filter_map_cong)
  have "reservation_inv st2"
    unfolding reservation_inv_def
  proof (intro ballI impI)
    fix s assume s: "s \<in> set (sessions st2)"
      and p: "status s = Pending \<or> status s = PaymentPending"
    from s ch(1) consider "s \<in> set (sessions st)" | "s = new_session sessionId amt q now"
      by auto
    then show "rat_of_nat (reserved_count st2 (session_uuid s)) = quantity s"
    proof cases
      case 1
      with ch(5) have "session_uuid s \<noteq> sessionId" by simp
      with other 1 p assms(2) show ?thesis by (auto simp: reservation_inv_def)
    next
      case 2
      with own ch(3) show ?thesis by (simp add: new_session_def)
    qed
  qed
  with st2 show ?thesis by simp
qed


lemma import_store_ok:
  assumes "distinct (map fst items)"
  shows "store_ok (import_nfts items)"
proof -
  have "map nft_id (nfts (import_nfts items)) = map fst (filter (\<lambda>(i, c). i \<le> 5000) items)"
    by (auto simp: import_nfts_def)
  then show ?thesis
    using assms by (simp add: store_ok_def distinct_map_filter) (simp add: import_nfts_def)
qed

lemma cleanup_store_ok:
  assumes "store_ok st"
  shows "store_ok (cleanupExpiredSessions now st)" and "store_ok (cleanupExpiredSessions_5min now st)"
proof -
  have "nft_id \<circ> released U = nft_id" for U
    by (auto simp: released_def fun_eq_iff)
  then show "store_ok (cleanupExpiredSessions now st)" "store_ok (cleanupExpiredSessions_5min now st)"
    using assms unfolding cleanup_eq cleanup_5min_eq
    by (simp_all add: store_ok_def distinct_map_filter)
qed

lemma fulfillOrder_store_ok:
  assumes "store_ok st"
  shows "store_ok (fulfillOrder session t st)"
proof -
  have "map nft_id (nfts (fulfillOrder session t st)) = map nft_id (nfts st)"
    "map session_uuid (sessions (fulfillOrder session t st)) = map session_uuid (sessions st)"
    "map amount_due (sessions (fulfillOrder session t st)) = map amount_due (sessions st)"
    by (simp_all add: fulfillOrder_def Let_def releaseStmt_def)
  then show ?thesis using assms by (simp add: store_ok_def)
qed

lemma markPaymentPending_store_ok:
  assumes "store_ok st"
  shows "store_ok (markPaymentPending sessionId t now st)"
proof -
  have "nfts (markPaymentPending sessionId t now st) = nfts st"
    "map session_uuid (sessions (markPaymentPending sessionId t now st)) = map session_uuid (sessions st)"
    "map amount_due (sessions (markPaymentPending sessionId t now st)) = map amount_due (sessions st)"
    by (simp_all add: markPaymentPending_def split: option.splits)
  then show ?thesis using assms by (simp add: store_ok_def)
qed

lemma intent_cases:
  assumes "distinct (map nft_id (nfts st))"
  obtains (unchanged) e where
      "create_payment_intent rnd sessionId now body st = (st, IntentError e)"
  | (written) q amt ch where "body = Some q" "1 \<le> q" "q \<le> 20"
      "create_payment_intent rnd sessionId now body st =
         (st\<lparr>sessions := sessions st @ [new_session sessionId amt q now],
             sqlite_sequence := Some (seq_of st + 1),
             nfts := map (reserve_row sessionId ch) (nfts st)\<rparr>,
          IntentSuccess sessionId (toFixed8 amt) PAYMENT_ADDRESS)"
      "amt = uniqueAmount_of q (seq_of st + 1)"
      "ch \<subseteq> set (nfts st)" "\<forall>n \<in> ch. available n"
      "rat_of_nat (length (filter (\<lambda>n. n \<in> ch) (nfts st))) = q"
      "\<forall>n \<in> set (nfts st). session_id n \<noteq> Some sessionId"
      "\<forall>s \<in> set (sessions st). session_uuid s \<noteq> sessionId \<and> amount_due s \<noteq> amt"
proof (cases "snd (create_payment_intent rnd sessionId now body st)")
  case (IntentError e)
  then have *: "create_payment_intent rnd sessionId now body st =
      (fst (create_payment_intent rnd sessionId now body st), IntentError e)"
    by (simp add: prod_eq_iff)
  from intent_error_rolls_back [OF *] *
  have "create_payment_intent rnd sessionId now body st = (st, IntentError e)"
    by simp
  then show ?thesis by (rule unchanged)
next
  case (IntentSuccess sid2 a addr)
  then obtain q where body: "body = Some q" and v: "\<not> invalid_quantity (Some q)"
    by (auto simp: create_payment_intent_def split: option.splits if_splits)
  from v have q0: "0 \<le> q" "1 \<le> q" "q \<le> 20" by (simp_all add: invalid_quantity_def)
  from IntentSuccess body v obtain st2 amt where
    ok: "intent_transaction rnd sessionId now q st = Inr (st2, sid2, amt)"
    and st2: "create_payment_intent rnd sessionId now body st =
        (st2, IntentSuccess sid2 (toFixed8 amt) PAYMENT_ADDRESS)"
    by (auto simp: create_payment_intent_def intent_reply_def db_transaction_def
        split: sum.splits prod.splits)
  from intent_transaction_success [OF ok assms q0(1)] obtain ch where
    ch: "sid2 = sessionId" "amt = uniqueAmount_of q (seq_of st + 1)"
      "st2 = st\<lparr>sessions := sessions st @ [new_session sessionId amt q now],
                sqlite_sequence := Some (seq_of st + 1),
                nfts := map (reserve_row sessionId ch) (nfts st)\<rparr>"
      "ch \<subseteq> set (nfts st)"
      "\<forall>n \<in> ch. available n"
      "rat_of_nat (length (filter (\<lambda>n. n \<in> ch) (nfts st))) = q"
      "\<forall>n \<in> set (nfts st). session_id n \<noteq> Some sessionId"
      "\<forall>s \<in> set (sessions st). session_uuid s \<noteq> sessionId \<and> amount_due s \<noteq> amt"
    by metis
  show ?thesis
  proof (rule written [where q = q and amt = amt and ch = ch])
    show "create_payment_intent rnd sessionId now body st =
         (st\<lparr>sessions := sessions st @ [new_session sessionId amt q now],
             sqlite_sequence := Some (seq_of st + 1),
             nfts := map (reserve_row sessionId ch) (nfts st)\<rparr>,
          IntentSuccess sessionId (toFixed8 amt) PAYMENT_ADDRESS)"
      using st2 ch(1,3) by simp
  qed (use body q0 ch in simp_all)
qed

lemma intent_store_ok:
  assumes "store_ok st"
  shows "store_ok (fst (create_payment_intent rnd sessionId now body st))"
proof -
  have d: "distinct (map nft_id (nfts st))" using assms by (simp add: store_ok_def)
  show ?thesis
  proof (rule intent_cases [OF d, of rnd sessionId now body], goal_cases)
    case 1
    then show ?case using assms by simp
  next
    case (2 q amt ch)
    have "nft_id \<circ> reserve_row sessionId ch = nft_id"
      by (auto simp: reserve_row_def fun_eq_iff)
    with 2(4,10) assms show ?case
      by (auto simp: store_ok_def new_session_def)
  qed
qed

lemma reachable_store_ok: "reachable st \<Longrightarrow> store_ok st"
proof (induction rule: reachable.induct)
  case (start items)
  then show ?case by (rule import_store_ok)
next
  case (cursor st c)
  then show ?case by (simp add: store_ok_def)
qed (simp_all add: intent_store_ok markPaymentPending_store_ok fulfillOrder_store_ok
    cleanup_store_ok)

lemma reachable_reservation_inv: "reachable st \<Longrightarrow> reservation_inv st"
proof (induction rule: reachable.induct)
  case (start items)
  then show ?case by (simp add: reservation_inv_def import_nfts_def)
next
  case (intent st rnd sessionId now body)
  then show ?case
    using reachable_store_ok [of st] by (simp add: intent_preserves_inv store_ok_def)
next
  case (mempool st sessionId t now)
  then show ?case
    using reachable_store_ok [of st] by (simp add: markPaymentPending_preserves_inv store_ok_def)
next
  case (cursor st c)
  then show ?case by (simp add: reservation_inv_def reserved_count_def)
qed (simp_all add: fulfillOrder_preserves_inv cleanup_preserves_inv cleanup_5min_preserves_inv)

text \<open>
  C1. In every reachable state of the store, each session in status \<open>Pending\<close> or
  \<open>PaymentPending\<close> has exactly \<open>quantity\<close> items whose \<open>session_id\<close> is its id and
  that are not claimed; and from any state with this property (and the key constraints of
  the tables) creating an intent, marking a payment as pending, fulfilling an order and
  either sweeper lead to a state with it.
\<close>

theorem reservation_count_invariant:
  "(reachable st \<longrightarrow> reservation_inv st) \<and>
   (store_ok st \<and> reservation_inv st \<longrightarrow>
      reservation_inv (fst (create_payment_intent rnd sessionId now body st)) \<and>
      reservation_inv (markPaymentPending sessionId t now st) \<and>
      reservation_inv (fulfillOrder session t st) \<and>
      reservation_inv (cleanupExpiredSessions now st) \<and>
      reservation_inv (cleanupExpiredSessions_5min now st))"
  by (simp add: reachable_reservation_inv intent_preserves_inv markPaymentPending_preserves_inv
      fulfillOrder_preserves_inv cleanup_preserves_inv cleanup_5min_preserves_inv store_ok_def)

theorem reservation_count_invariant_witness:
  "reservation_inv
     (fst (create_payment_intent (\<lambda>i. int i) ''0a'' 0 (Some 2)
        (import_nfts [(1, ''cid1''), (2, ''cid2''), (3, ''cid3'')]))) \<and>
   sessions (fst (create_payment_intent (\<lambda>i. int i) ''0a'' 0 (Some 2)
        (import_nfts [(1, ''cid1''), (2, ''cid2''), (3, ''cid3'')]))) =
     [new_session ''0a'' (1000001 / 100000000) 2 0] \<and>
   reservation_inv (markPaymentPending ''0a'' ''t1'' 50 example_db) \<and>
   reservation_inv (fulfillOrder (''0b'', 2) ''t2'' example_db) \<and>
   reservation_inv (cleanupExpiredSessions 1500 example_db)"
proof -
  have r: "reachable (fst (create_payment_intent (\<lambda>i. int i) ''0a'' 0 (Some 2)
        (import_nfts [(1, ''cid1''), (2, ''cid2''), (3, ''cid3'')])))"
    by (intro reachable.intent reachable.start) simp
  have s: "sessions (fst (create_payment_intent (\<lambda>i. int i) ''0a'' 0 (Some 2)
        (import_nfts [(1, ''cid1''), (2, ''cid2''), (3, ''cid3'')]))) =
     [new_session ''0a'' (1000001 / 100000000) 2 0]"
    by code_simp
  have e: "store_ok example_db \<and> reservation_inv example_db"
    by code_simp
  show ?thesis
    using r s e
      reservation_count_invariant [of "fst (create_payment_intent (\<lambda>i. int i) ''0a'' 0 (Some 2)
        (import_nfts [(1, ''cid1''), (2, ''cid2''), (3, ''cid3'')]))"]
      reservation_count_invariant [where st = example_db and sessionId = "''0a''" and now = 50
        and t = "''t1''"]
      reservation_count_invariant [where st = example_db and session = "(''0b'', 2)"
        and now = 1500 and t = "''t2''"]
    by blast
qed


section \<open>Unique amounts\<close>

lemma toFixed8_units: "toFixed8 (rat_of_int m / 100000000) = rat_of_int m / 100000000"
proof -
  have "\<lfloor>rat_of_int m + 1 / 2\<rfloor> = m" by linarith
  then show ?thesis by (simp add: toFixed8_def)
qed

lemma uniqueAmount_units:
  "uniqueAmount_of (rat_of_nat k) n = rat_of_int (500000 * int k + int n) / 100000000"
  by (simp add: uniqueAmount_of_def PRICE_PER_NFT_def field_simps)

lemma toFixed8_uniqueAmount:
  "toFixed8 (uniqueAmount_of (rat_of_nat k) n) = uniqueAmount_of (rat_of_nat k) n"
  unfolding uniqueAmount_units by (rule toFixed8_units)

lemma uniqueAmount_step:
  "uniqueAmount_of q (Suc n) - uniqueAmount_of q n = 1 / 100000000"
  by (simp add: uniqueAmount_of_def field_simps)

lemma uniqueAmount_inj: "uniqueAmount_of q m = uniqueAmount_of q n \<longleftrightarrow> m = n"
  by (simp add: uniqueAmount_of_def)

lemma reserve_ids_rows:
  assumes "distinct (map nft_id (nfts st))" and "set chosen \<subseteq> set (nfts st)"
  shows "nfts (reserve_ids sessionId (map nft_id chosen) st) =
           map (reserve_row sessionId (set chosen)) (nfts st)"
  using chosen_is_row [OF assms] by (auto simp: reserve_ids_def reserve_row_def)

lemma reserved_after:
  "length (filter (\<lambda>n. session_id n = Some sessionId) (map (reserve_row sessionId ch) xs)) =
     length (filter (\<lambda>n. n \<in> ch) xs) +
     length (filter (\<lambda>n. n \<notin> ch \<and> session_id n = Some sessionId) xs)"
proof -
  have p: "(\<lambda>n. session_id n = Some sessionId) \<circ> reserve_row sessionId ch =
        (\<lambda>n. n \<in> ch \<or> session_id n = Some sessionId)"
    by (auto simp: fun_eq_iff reserve_row_def)
  show ?thesis
    unfolding length_filter_map p by (rule length_filter_disj)
qed

lemma intent_succeeds:
  assumes d: "distinct (map nft_id (nfts st))"
    and k: "1 \<le> k" "k \<le> 20" "k \<le> length (filter available (nfts st))"
    and f: "fresh_id sessionId st"
    and a: "\<forall>s \<in> set (sessions st). amount_due s \<noteq> uniqueAmount_of (rat_of_nat k) (seq_of st + 1)"
  shows "snd (create_payment_intent rnd sessionId now (Some (rat_of_nat k)) st) =
           IntentSuccess sessionId (uniqueAmount_of (rat_of_nat k) (seq_of st + 1)) PAYMENT_ADDRESS"
proof -
  define q where "q = rat_of_nat k"
  define amt where "amt = uniqueAmount_of q (seq_of st + 1)"
  define cands where "cands = filter available (nfts st)"
  define chosen where "chosen = take (nat \<lfloor>q\<rfloor>) (order_by_random rnd cands)"
  define st1 where "st1 = st\<lparr>sessions := sessions st @ [new_session sessionId amt q now],
        sqlite_sequence := Some (seq_of st + 1)\<rparr>"
  have fl: "nat \<lfloor>q\<rfloor> = k" "rat_of_int \<lfloor>q\<rfloor> = q" "\<not> q < 0" by (simp_all add: q_def)
  have v: "\<not> invalid_quantity (Some q)"
    using k by (simp add: invalid_quantity_def q_def)
  have enough: "\<not> rat_of_nat (length cands) < q"
    using k(3) by (simp add: q_def cands_def)
  have ins: "insert_session sessionId amt q now st = Inr st1"
    using f a by (auto simp: insert_session_def list_ex_iff fresh_id_def st1_def new_session_def
        amt_def q_def)
  have n1: "nfts st1 = nfts st" by (simp add: st1_def)
  have lim: "sql_limit q (order_by_random rnd (filter available (nfts st1))) = Inr chosen"
    using fl by (simp add: sql_limit_def chosen_def cands_def n1)
  have dc: "distinct cands" using d by (simp add: cands_def distinct_map)
  have sub: "set chosen \<subseteq> set (nfts st1)"
    using set_take_subset [of "nat \<lfloor>q\<rfloor>" "order_by_random rnd cands"]
    by (auto simp: chosen_def set_order_by_random cands_def n1)
  have dch: "distinct chosen"
    by (simp add: chosen_def distinct_take distinct_order_by_random dc)
  have lch: "length chosen = k"
    using k(3) fl by (simp add: chosen_def length_order_by_random cands_def)
  have d1: "distinct (map nft_id (nfts st1))" using d by (simp add: n1)
  have cnt: "length (filter (\<lambda>n. n \<in> set chosen) (nfts st1)) = length chosen"
  proof -
    have "filter (\<lambda>n. n \<in> set chosen) (nfts st1) =
        filter (\<lambda>n. nft_id n \<in> nft_id ` set chosen) (nfts st1)"
      using chosen_is_row [OF d1 sub] by (auto intro: filter_cong)
    then show ?thesis using length_filter_chosen [OF d1 sub dch] by simp
  qed
  have none: "filter (\<lambda>n. n \<notin> set chosen \<and> session_id n = Some sessionId) (nfts st1) = []"
    using f by (auto simp: fresh_id_def n1 filter_empty_conv)
  have res: "length (filter (\<lambda>n. session_id n = Some sessionId)
        (nfts (reserve_ids sessionId (map nft_id chosen) st1))) = k"
    unfolding reserve_ids_rows [OF d1 sub] reserved_after cnt none lch by simp
  have "intent_transaction rnd sessionId now q st =
      Inr (reserve_ids sessionId (map nft_id chosen) st1, sessionId, amt)"
    using enough ins lim res
    by (simp add: intent_transaction_def Let_def cands_def amt_def q_def)
  then have "snd (create_payment_intent rnd sessionId now (Some q) st) =
      IntentSuccess sessionId (toFixed8 amt) PAYMENT_ADDRESS"
    using v by (simp add: create_payment_intent_def intent_reply_def db_transaction_def)
  then show ?thesis
    by (simp add: amt_def q_def toFixed8_uniqueAmount)
qed


lemma available_after:
  assumes "\<forall>n \<in> ch. available n"
  shows "length (filter available xs) =
           length (filter (\<lambda>n. n \<in> ch) xs) +
           length (filter available (map (reserve_row sessionId ch) xs))"
proof -
  have "filter available xs = filter (\<lambda>n. n \<in> ch \<or> available n) xs"
    using assms by (auto intro: filter_cong)
  moreover have "available \<circ> reserve_row sessionId ch = (\<lambda>n. n \<notin> ch \<and> available n)"
    by (auto simp: fun_eq_iff reserve_row_def available_def)
  ultimately show ?thesis
    by (simp only: length_filter_map length_filter_disj)
qed

lemma intent_one:
  assumes ok: "store_ok st" and f: "fresh_id sessionId st"
    and a: "\<forall>s \<in> set (sessions st). amount_due s \<noteq> uniqueAmount_of 1 (seq_of st + 1)"
    and k: "1 \<le> length (filter available (nfts st))"
  obtains st1 where
    "create_payment_intent rnd sessionId now (Some 1) st =
       (st1, IntentSuccess sessionId (uniqueAmount_of 1 (seq_of st + 1)) PAYMENT_ADDRESS)"
    "store_ok st1" "seq_of st1 = seq_of st + 1"
    "length (filter available (nfts st)) = 1 + length (filter available (nfts st1))"
    "sessions st1 = sessions st @
       [new_session sessionId (uniqueAmount_of 1 (seq_of st + 1)) 1 now]"
    "\<And>u. u \<noteq> sessionId \<Longrightarrow> fresh_id u st \<Longrightarrow> fresh_id u st1"
proof -
  have d: "distinct (map nft_id (nfts st))" using ok by (simp add: store_ok_def)
  have s: "snd (create_payment_intent rnd sessionId now (Some 1) st) =
      IntentSuccess sessionId (uniqueAmount_of 1 (seq_of st + 1)) PAYMENT_ADDRESS"
    using intent_succeeds [OF d _ _ _ f, of 1 rnd now] a k by simp
  show ?thesis
  proof (rule intent_cases [OF d, of rnd sessionId now "Some 1"], goal_cases)
    case (1 e)
    with s show ?case by simp
  next
    case (2 q amt ch)
    define st1 where "st1 = st\<lparr>sessions := sessions st @ [new_session sessionId amt q now],
             sqlite_sequence := Some (seq_of st + 1),
             nfts := map (reserve_row sessionId ch) (nfts st)\<rparr>"
    from 2(1) have q: "q = 1" by simp
    have amt: "amt = uniqueAmount_of 1 (seq_of st + 1)" using 2(5) q by simp
    have one: "length (filter (\<lambda>n. n \<in> ch) (nfts st)) = 1"
      using 2(8) q by simp
    show ?case
    proof (rule that [of st1])
      show "create_payment_intent rnd sessionId now (Some 1) st =
         (st1, IntentSuccess sessionId (uniqueAmount_of 1 (seq_of st + 1)) PAYMENT_ADDRESS)"
        using 2(4) s by (simp add: st1_def)
      show "store_ok st1"
        using intent_store_ok [OF ok, of rnd sessionId now "Some 1"] 2(4) by (simp add: st1_def)
      show "seq_of st1 = seq_of st + 1" by (simp add: st1_def seq_of_def)
      show "length (filter available (nfts st)) = 1 + length (filter available (nfts st1))"
        using available_after [OF 2(7), of "nfts st" sessionId] one by (simp add: st1_def)
      show "sessions st1 = sessions st @
          [new_session sessionId (uniqueAmount_of 1 (seq_of st + 1)) 1 now]"
        using amt q by (simp add: st1_def)
      show "fresh_id u st1" if "u \<noteq> sessionId" "fresh_id u st" for u
        using that by (auto simp: fresh_id_def st1_def new_session_def reserve_row_def)
    qed
  qed
qed

lemma sequential_intents_replies:
  assumes "store_ok st" and "distinct (map call_id calls)"
    and "\<forall>c \<in> set calls. fresh_id (call_id c) st"
    and "length calls \<le> length (filter available (nfts st))"
    and "\<forall>s \<in> set (sessions st). \<forall>i < length calls.
           amount_due s \<noteq> uniqueAmount_of 1 (seq_of st + 1 + i)"
  shows "snd (sequential_intents calls st) =
           map (\<lambda>(i, c). IntentSuccess (call_id c) (uniqueAmount_of 1 (seq_of st + 1 + i))
                  PAYMENT_ADDRESS) (enumerate 0 calls)"
  using assms
proof (induction calls arbitrary: st)
  case Nil
  show ?case by simp
next
  case (Cons c calls)
  obtain rnd sessionId now where c: "c = (rnd, sessionId, now)"
    by (cases c) auto
  have f: "fresh_id sessionId st" using Cons.prems(3) c by (simp add: call_id_def)
  have a: "\<forall>s \<in> set (sessions st). amount_due s \<noteq> uniqueAmount_of 1 (seq_of st + 1)"
    using Cons.prems(5) by fastforce
  have k: "1 \<le> length (filter available (nfts st))" using Cons.prems(4) by simp
  from intent_one [OF Cons.prems(1) f a k, of rnd now] obtain st1 where st1:
    "create_payment_intent rnd sessionId now (Some 1) st =
       (st1, IntentSuccess sessionId (uniqueAmount_of 1 (seq_of st + 1)) PAYMENT_ADDRESS)"
    "store_ok st1" "seq_of st1 = seq_of st + 1"
    "length (filter available (nfts st)) = 1 + length (filter available (nfts st1))"
    "sessions st1 = sessions st @
       [new_session sessionId (uniqueAmount_of 1 (seq_of st + 1)) 1 now]"
    "\<And>u. u \<noteq> sessionId \<Longrightarrow> fresh_id u st \<Longrightarrow> fresh_id u st1"
    by metis
  have p2: "distinct (map call_id calls)" using Cons.prems(2) by simp
  have p3: "\<forall>c \<in> set calls. fresh_id (call_id c) st1"
  proof
    fix c' assume c': "c' \<in> set calls"
    then have "call_id c' \<noteq> sessionId" using Cons.prems(2) c by (auto simp: call_id_def)
    moreover have "fresh_id (call_id c') st" using Cons.prems(3) c' by simp
    ultimately show "fresh_id (call_id c') st1" by (rule st1(6))
  qed
  have p4: "length calls \<le> length (filter available (nfts st1))"
    using Cons.prems(4) st1(4) by simp
  have p5: "\<forall>s \<in> set (sessions st1). \<forall>i < length calls.
           amount_due s \<noteq> uniqueAmount_of 1 (seq_of st1 + 1 + i)"
  proof (intro ballI allI impI)
    fix s i assume s: "s \<in> set (sessions st1)" and i: "i < length calls"
    from s st1(5) consider "s \<in> set (sessions st)"
      | "s = new_session sessionId (uniqueAmount_of 1 (seq_of st + 1)) 1 now" by auto
    then show "amount_due s \<noteq> uniqueAmount_of 1 (seq_of st1 + 1 + i)"
    proof cases
      case 1
      with Cons.prems(5) i have "amount_due s \<noteq> uniqueAmount_of 1 (seq_of st + 1 + Suc i)"
        by (metis Suc_less_eq length_Cons)
      then show ?thesis by (simp add: st1(3))
    next
      case 2
      then show ?thesis by (simp add: new_session_def st1(3) uniqueAmount_inj)
    qed
  qed
  have ih: "snd (sequential_intents calls st1) =
      map (\<lambda>(i, c). IntentSuccess (call_id c) (uniqueAmount_of 1 (seq_of st1 + 1 + i))
             PAYMENT_ADDRESS) (enumerate 0 calls)"
    using Cons.IH [OF st1(2) p2 p3 p4 p5] .
  have sh: "map (\<lambda>(i, c). IntentSuccess (call_id c) (uniqueAmount_of 1 (seq_of st1 + 1 + i))
             PAYMENT_ADDRESS) (enumerate 0 calls) =
      map (\<lambda>(i, c). IntentSuccess (call_id c) (uniqueAmount_of 1 (seq_of st + 1 + i))
             PAYMENT_ADDRESS) (enumerate (Suc 0) calls)"
    by (simp add: enumerate_Suc_eq st1(3) case_prod_unfold o_def)
  show ?case
    using st1(1) ih sh
    by (auto simp: c call_id_def split: prod.splits)
qed


lemma reply_amounts_success:
  "reply_amounts (map (\<lambda>x. IntentSuccess (f x) (g x) h) xs) = map g xs"
  by (induction xs) auto

lemma sequential_intents_amounts:
  assumes "store_ok st" and "distinct (map call_id calls)"
    and "\<forall>c \<in> set calls. fresh_id (call_id c) st"
    and "length calls \<le> length (filter available (nfts st))"
    and "\<forall>s \<in> set (sessions st). \<forall>i < length calls.
           amount_due s \<noteq> uniqueAmount_of 1 (seq_of st + 1 + i)"
  shows "reply_amounts (snd (sequential_intents calls st)) =
           map (\<lambda>i. uniqueAmount_of 1 (seq_of st + 1 + i)) [0..<length calls]"
proof -
  have "reply_amounts (snd (sequential_intents calls st)) =
      map (\<lambda>x. uniqueAmount_of 1 (seq_of st + 1 + fst x)) (enumerate 0 calls)"
    unfolding sequential_intents_replies [OF assms] case_prod_unfold
    by (rule reply_amounts_success)
  also have "\<dots> = map (\<lambda>i. uniqueAmount_of 1 (seq_of st + 1 + i)) (map fst (enumerate 0 calls))"
    by (simp only: map_map o_def)
  also have "map fst (enumerate 0 calls) = [0..<length calls]"
    by simp
  finally show ?thesis .
qed

text \<open>
  The sum alone does not separate sessions of different quantities: one item with sequence
  value 500001 and two items with sequence value 1 cost the same. The UNIQUE column refuses
  the second of two such rows while the first is in the table.
\<close>

lemma uniqueAmount_across_quantities: "uniqueAmount_of 1 500001 = uniqueAmount_of 2 1"
  by (simp add: uniqueAmount_of_def PRICE_PER_NFT_def)




section \<open>Fulfilling an order outside the waiting states\<close>

lemma reservations_owned_iff:
  "reservations_owned st \<longleftrightarrow>
     (\<forall>n \<in> set (nfts st). \<forall>u. \<not> claimed n \<and> session_id n = Some u \<longrightarrow>
        (\<exists>s \<in> set (sessions st).
           session_uuid s = u \<and> (status s = Pending \<or> status s = PaymentPending)))"
  by (auto simp: reservations_owned_def split: option.splits)

lemma owned_import: "reservations_owned (import_nfts items)"
  by (auto simp: reservations_owned_iff import_nfts_def)

lemma owned_released:
  assumes "reservations_owned st"
  shows "reservations_owned
           (st\<lparr>nfts := map (released U) (nfts st),
               sessions := filter (\<lambda>s. session_uuid s \<notin> U) (sessions st)\<rparr>)"
  unfolding reservations_owned_iff
proof (intro ballI allI impI)
  fix n' u
  assume n': "n' \<in> set (nfts (st\<lparr>nfts := map (released U) (nfts st),
               sessions := filter (\<lambda>s. session_uuid s \<notin> U) (sessions st)\<rparr>))"
    and c: "\<not> claimed n' \<and> session_id n' = Some u"
  from n' obtain n where n: "n \<in> set (nfts st)" "n' = released U n" by auto
  from c n(2) have same: "n' = n" and out: "u \<notin> U"
    by (auto simp: released_def split: if_splits)
  from assms n(1) c same obtain s where "s \<in> set (sessions st)" "session_uuid s = u"
    "status s = Pending \<or> status s = PaymentPending"
    unfolding reservations_owned_iff by blast
  with out show "\<exists>s \<in> set (sessions (st\<lparr>nfts := map (released U) (nfts st),
               sessions := filter (\<lambda>s. session_uuid s \<notin> U) (sessions st)\<rparr>)).
      session_uuid s = u \<and> (status s = Pending \<or> status s = PaymentPending)"
    by auto
qed

lemma owned_cleanup:
  assumes "reservations_owned st"
  shows "reservations_owned (cleanupExpiredSessions now st)"
    and "reservations_owned (cleanupExpiredSessions_5min now st)"
  unfolding cleanup_eq cleanup_5min_eq using assms by (rule owned_released)+

lemma owned_fulfillOrder:
  assumes "reservations_owned st"
  shows "reservations_owned (fulfillOrder session t st)"
  unfolding reservations_owned_iff
proof (intro ballI allI impI)
  fix n' u
  assume n': "n' \<in> set (nfts (fulfillOrder session t st))"
    and c: "\<not> claimed n' \<and> session_id n' = Some u"
  from n' c have n: "n' \<in> set (nfts st)" and ne: "u \<noteq> fst session"
    by (auto simp: fulfillOrder_def Let_def releaseStmt_def split: if_splits)
  from assms n c obtain s where s: "s \<in> set (sessions st)" "session_uuid s = u"
    "status s = Pending \<or> status s = PaymentPending"
    unfolding reservations_owned_iff by blast
  from s(1,2) ne have "s \<in> set (sessions (fulfillOrder session t st))"
    by (auto simp: fulfillOrder_def Let_def releaseStmt_def image_iff intro!: bexI [of _ s])
  with s(2,3) show "\<exists>s \<in> set (sessions (fulfillOrder session t st)).
      session_uuid s = u \<and> (status s = Pending \<or> status s = PaymentPending)"
    by blast
qed

lemma owned_markPaymentPending:
  assumes "reservations_owned st"
  shows "reservations_owned (markPaymentPending sessionId t now st)"
  unfolding reservations_owned_iff
proof (intro ballI allI impI)
  fix n u
  assume "n \<in> set (nfts (markPaymentPending sessionId t now st))"
    and c: "\<not> claimed n \<and> session_id n = Some u"
  then have n: "n \<in> set (nfts st)"
    by (auto simp: markPaymentPending_def split: option.splits if_splits)
  from assms n c obtain s where s: "s \<in> set (sessions st)" "session_uuid s = u"
    "status s = Pending \<or> status s = PaymentPending"
    unfolding reservations_owned_iff by blast
  define s' where "s' = (if session_uuid s = sessionId
      then s\<lparr>status := PaymentPending, payment_txid := Some t, updated_at := now\<rparr> else s)"
  have "s \<in> set (sessions (markPaymentPending sessionId t now st)) \<or>
        s' \<in> set (sessions (markPaymentPending sessionId t now st))"
    using s(1) by (auto simp: markPaymentPending_def s'_def split: option.splits)
  moreover have "session_uuid s' = u" "status s' = Pending \<or> status s' = PaymentPending"
    using s(2,3) by (auto simp: s'_def)
  ultimately show "\<exists>s \<in> set (sessions (markPaymentPending sessionId t now st)).
      session_uuid s = u \<and> (status s = Pending \<or> status s = PaymentPending)"
    using s(2,3) by blast
qed

lemma owned_intent:
  assumes "distinct (map nft_id (nfts st))" and "reservations_owned st"
  shows "reservations_owned (fst (create_payment_intent rnd sessionId now body st))"
proof (rule intent_cases [OF assms(1), of rnd sessionId now body], goal_cases)
  case (1 e)
  then show ?case using assms(2) by simp
next
  case (2 q amt ch)
  show ?case
    unfolding 2(4) reservations_owned_iff
  proof (intro ballI allI impI)
    fix n' u
    assume "n' \<in> set (nfts (fst (st\<lparr>sessions := sessions st @ [new_session sessionId amt q now],
             sqlite_sequence := Some (seq_of st + 1),
             nfts := map (reserve_row sessionId ch) (nfts st)\<rparr>,
          IntentSuccess sessionId (toFixed8 amt) PAYMENT_ADDRESS)))"
      and c: "\<not> claimed n' \<and> session_id n' = Some u"
    then obtain n where n: "n \<in> set (nfts st)" "n' = reserve_row sessionId ch n" by auto
    show "\<exists>s \<in> set (sessions (fst (st\<lparr>sessions := sessions st @ [new_session sessionId amt q now],
             sqlite_sequence := Some (seq_of st + 1),
             nfts := map (reserve_row sessionId ch) (nfts st)\<rparr>,
          IntentSuccess sessionId (toFixed8 amt) PAYMENT_ADDRESS))).
        session_uuid s = u \<and> (status s = Pending \<or> status s = PaymentPending)"
    proof (cases "n \<in> ch")
      case True
      with n(2) c have "u = sessionId" by (simp add: reserve_row_def)
      then show ?thesis by (simp add: new_session_def)
    next
      case False
      with n(2) have "n' = n" by (simp add: reserve_row_def)
      with assms(2) n(1) c obtain s where "s \<in> set (sessions st)" "session_uuid s = u"
        "status s = Pending \<or> status s = PaymentPending"
        unfolding reservations_owned_iff by blast
      then show ?thesis by auto
    qed
  qed
qed

lemma reachable_owned: "reachable st \<Longrightarrow> reservations_owned st"
proof (induction rule: reachable.induct)
  case (intent st rnd sessionId now body)
  then show ?case using reachable_store_ok [of st] by (simp add: owned_intent store_ok_def)
next
  case (cursor st c)
  then show ?case by (simp add: reservations_owned_iff)
qed (simp_all add: owned_import owned_cleanup owned_fulfillOrder owned_markPaymentPending)


lemma map_of_fold_update:
  assumes "map_of (fold (\<lambda>s. AList.update (f s) (g s)) xs acc) k = Some v"
  shows "map_of acc k = Some v \<or> (\<exists>s \<in> set xs. f s = k \<and> g s = v)"
  using assms
proof (induction xs arbitrary: acc)
  case Nil
  then show ?case by simp
next
  case (Cons a xs)
  from Cons.IH [of "AList.update (f a) (g a) acc"] Cons.prems
  have "map_of (AList.update (f a) (g a) acc) k = Some v \<or> (\<exists>s \<in> set xs. f s = k \<and> g s = v)"
    by simp
  then show ?case
    by (auto simp: update_conv' split: if_splits)
qed

lemma pending_index_entries:
  assumes "map_of (loadPendingPayments st) k = Some (sid, q)"
  shows "\<exists>s \<in> set (sessions st). session_uuid s = sid \<and> quantity s = q \<and>
           (status s = Pending \<or> status s = PaymentPending)"
  using map_of_fold_update [OF assms [unfolded loadPendingPayments_def]] by auto

lemma fulfillOrder_nothing_reserved:
  assumes "0 < snd session"
    and "\<forall>n \<in> set (nfts st). session_id n = Some (fst session) \<longrightarrow> claimed n"
  shows "fulfillOrder session t st =
           st\<lparr>sessions := map (\<lambda>r. if session_uuid r = fst session then r\<lparr>status := Failed\<rparr> else r)
                             (sessions st)\<rparr>"
proof -
  have rows: "filter (\<lambda>n. session_id n = Some (fst session) \<and> \<not> claimed n \<and> nft_id n \<le> MAX_SUPPLY)
      (nfts st) = []"
    using assms(2) by (auto simp: filter_empty_conv)
  have rel: "map (\<lambda>n. if session_id n = Some (fst session) \<and> \<not> claimed n
                           then n\<lparr>session_id := None\<rparr> else n) (nfts st) = nfts st"
    using assms(2) by (intro map_idI) auto
  show ?thesis
    using assms(1) by (simp add: fulfillOrder_def Let_def rows releaseStmt_def rel)
qed




text \<open>The first monitor's version assigns fresh items to a session that is complete.\<close>

lemma fulfillOrder_legacy_replay:
  "map status (sessions (fulfillOrder_legacy (\<lambda>i. int i) (''0d'', 1) ''t9'' example_db)) =
     map status (sessions example_db) \<and>
   map payment_txid (sessions (fulfillOrder_legacy (\<lambda>i. int i) (''0d'', 1) ''t9'' example_db)) =
     [None, None, Some ''t3'', Some ''t9''] \<and>
   map claimed (nfts (fulfillOrder_legacy (\<lambda>i. int i) (''0d'', 1) ''t9'' example_db)) =
     [True, False, False, False, False, True, False]"
  by code_simp


section \<open>The cursor of the block scanner\<close>

lemma cursor_fulfillOrder:
  "last_scanned_payment_block (fulfillOrder session t st) = last_scanned_payment_block st"
  by (simp add: fulfillOrder_def Let_def releaseStmt_def)

lemma cursor_scan_vout: "cursor_of (scan_vout t v ms) = cursor_of ms"
  by (simp add: scan_vout_def cursor_of_def Let_def cursor_fulfillOrder split: option.splits)

lemma cursor_scan_tx: "cursor_of (scan_tx x ms) = cursor_of ms"
proof -
  have "cursor_of (fold (scan_vout t) vs ms) = cursor_of ms" for t vs
    by (induction vs arbitrary: ms) (simp_all add: cursor_scan_vout)
  then show ?thesis by (simp add: scan_tx_def)
qed

lemma cursor_fold_scan_tx: "cursor_of (fold scan_tx b ms) = cursor_of ms"
  by (induction b arbitrary: ms) (simp_all add: cursor_scan_tx)

lemma cursor_scanBlock: "cursor_of (scanBlock today up h ms) = cursor_of ms"
proof -
  have a: "cursor_of (m\<lparr>apis := x\<rparr>) = cursor_of m" for m x
    by (simp add: cursor_of_def)
  show ?thesis
    by (simp add: scanBlock_def cursor_fold_scan_tx a split: prod.splits option.splits)
qed

lemma cursor_scan_and_persist:
  "cursor_of (scan_and_persist today up h ms) =
     (case cursor_of ms of None \<Rightarrow> None | Some l \<Rightarrow> Some h)"
  using cursor_scanBlock [of today up h ms]
  by (simp add: scan_and_persist_def Let_def persist_height_def cursor_of_def
      split: option.splits)

lemma cursor_scan_loop:
  assumes "cursor_of ms = Some l"
  shows "cursor_of (fold (scan_and_persist today up) hs ms) = Some (last (l # hs))"
  using assms
proof (induction hs arbitrary: ms l)
  case Nil
  then show ?case by simp
next
  case (Cons h hs)
  have "cursor_of (scan_and_persist today up h ms) = Some h"
    using Cons.prems by (simp add: cursor_scan_and_persist)
  from Cons.IH [OF this] show ?case by simp
qed

lemma last_upto: "a \<le> b \<Longrightarrow> last [a..b] = b"
  by (simp add: upto_rec2)

lemma monitorBlocks_proceeds:
  assumes p: "loadPendingPayments (store ms) \<noteq> []"
    and tip: "rpcCall today (getblockcount up) 5 (apis ms) = (apis1, Some H)" and h0: "H \<noteq> 0"
  shows "monitorBlocks today up ms =
           fold (scan_and_persist today up)
             [(case cursor_of ms of None \<Rightarrow> H - 100 | Some l \<Rightarrow> l) + 1..H]
             (ms\<lparr>pendingPayments := loadPendingPayments (store ms), apis := apis1,
                 store := (store ms)\<lparr>last_scanned_payment_block :=
                   Some (case cursor_of ms of None \<Rightarrow> H - 100 | Some l \<Rightarrow> l)\<rparr>\<rparr>)"
proof (cases "cursor_of ms")
  case None
  then show ?thesis
    using p tip h0 by (simp add: monitorBlocks_def Let_def cursor_of_def)
next
  case (Some l)
  then have e: "ms\<lparr>pendingPayments := P, apis := A,
      store := (store ms)\<lparr>last_scanned_payment_block := Some l\<rparr>\<rparr> =
      ms\<lparr>pendingPayments := P, apis := A\<rparr>" for P A
    by (simp add: cursor_of_def)
  show ?thesis
    using p tip h0 Some by (simp add: monitorBlocks_def Let_def cursor_of_def e)
qed

lemma monitorBlocks_cursor:
  assumes p: "loadPendingPayments (store ms) \<noteq> []"
    and tip: "rpcCall today (getblockcount up) 5 (apis ms) = (apis1, Some H)" and h0: "H \<noteq> 0"
  shows "cursor_of (monitorBlocks today up ms) =
           Some (max H (case cursor_of ms of None \<Rightarrow> H - 100 | Some l \<Rightarrow> l))"
proof -
  define L where "L = (case cursor_of ms of None \<Rightarrow> H - 100 | Some l \<Rightarrow> l)"
  define ms1 where "ms1 = ms\<lparr>pendingPayments := loadPendingPayments (store ms), apis := apis1,
                 store := (store ms)\<lparr>last_scanned_payment_block := Some L\<rparr>\<rparr>"
  have c: "cursor_of ms1 = Some L" by (simp add: ms1_def cursor_of_def)
  have "cursor_of (monitorBlocks today up ms) = Some (last (L # [L + 1..H]))"
    unfolding monitorBlocks_proceeds [OF assms] L_def [symmetric] ms1_def [symmetric]
    using c by (rule cursor_scan_loop)
  also have "last (L # [L + 1..H]) = max H L"
  proof (cases "L + 1 \<le> H")
    case True
    then have "[L + 1..H] \<noteq> []" by simp
    then have "last (L # [L + 1..H]) = last [L + 1..H]" by simp
    with True show ?thesis by (simp add: last_upto)
  next
    case False
    then show ?thesis by simp
  qed
  finally show ?thesis by (simp add: L_def)
qed

lemma monitorBlocks_synced:
  assumes "cursor_of ms = Some l"
    and tip: "rpcCall today (getblockcount up) 5 (apis ms) = (apis1, Some H)" and "H \<le> l"
  shows "store (monitorBlocks today up ms) = store ms"
  using assms
  by (simp add: monitorBlocks_def Let_def cursor_of_def)

lemma cursor_le_refl: "cursor_le a a"
  by (simp add: cursor_le_def split: option.splits)

lemma cursor_le_trans: "cursor_le a b \<Longrightarrow> cursor_le b c \<Longrightarrow> cursor_le a c"
  by (auto simp: cursor_le_def split: option.splits)

lemma monitorBlocks_monotone: "cursor_le (cursor_of ms) (cursor_of (monitorBlocks today up ms))"
proof (cases "loadPendingPayments (store ms) = []")
  case True
  then show ?thesis by (simp add: monitorBlocks_def Let_def cursor_of_def cursor_le_refl)
next
  case False
  obtain apis1 tip where r: "rpcCall today (getblockcount up) 5 (apis ms) = (apis1, tip)"
    by (cases "rpcCall today (getblockcount up) 5 (apis ms)") auto
  show ?thesis
  proof (cases "tip = None \<or> tip = Some 0")
    case True
    then show ?thesis
      using False r by (auto simp: monitorBlocks_def Let_def cursor_of_def cursor_le_refl)
  next
    case False
    then obtain H where H: "tip = Some H" "H \<noteq> 0" by auto
    show ?thesis
      unfolding monitorBlocks_cursor [OF \<open>loadPendingPayments (store ms) \<noteq> []\<close> r [unfolded H(1)] H(2)]
      by (simp add: cursor_le_def split: option.splits)
  qed
qed

lemma block_scanner_monotone: "cursor_le (cursor_of ms) (cursor_of (block_scanner cycles ms))"
proof (induction cycles arbitrary: ms)
  case Nil
  show ?case by (simp add: block_scanner_def cursor_le_refl)
next
  case (Cons c cycles)
  obtain today up where c: "c = (today, up)" by (cases c) auto
  have "block_scanner (c # cycles) ms = block_scanner cycles (monitorBlocks today up ms)"
    by (simp add: block_scanner_def c)
  with monitorBlocks_monotone [of ms today up] Cons.IH [of "monitorBlocks today up ms"]
  show ?case by (auto intro: cursor_le_trans)
qed

text \<open>The same for \<^verbatim>\<open>monitorPayments\<close> of the first monitor.\<close>

lemma cursor_claim_cid:
  "last_scanned_payment_block (fold (claim_cid sessionId) cs st) = last_scanned_payment_block st"
  by (induction cs arbitrary: st) (simp_all add: claim_cid_def)

lemma cursor_fulfillOrder_legacy:
  "last_scanned_payment_block (fulfillOrder_legacy rnd session t st) =
     last_scanned_payment_block st"
  by (simp add: fulfillOrder_legacy_def cursor_claim_cid split: sum.splits)

lemma cursor_scan_vout_legacy:
  "last_scanned_payment_block (fst (scan_vout_legacy rnd t v m)) =
     last_scanned_payment_block (fst m)"
  by (simp add: scan_vout_legacy_def Let_def cursor_fulfillOrder_legacy split: option.splits)

lemma cursor_scanBlock_legacy:
  "last_scanned_payment_block (fst (scanBlock_legacy rnd up h m)) =
     last_scanned_payment_block (fst m)"
proof -
  have v: "last_scanned_payment_block (fst (fold (scan_vout_legacy rnd t) vs m)) =
      last_scanned_payment_block (fst m)" for t vs m
    by (induction vs arbitrary: m) (simp_all add: cursor_scan_vout_legacy)
  have b: "last_scanned_payment_block
      (fst (fold (\<lambda>x. fold (scan_vout_legacy rnd (txid x)) (vout x)) b m)) =
      last_scanned_payment_block (fst m)" for b m
    by (induction b arbitrary: m) (simp_all add: v)
  show ?thesis
    by (simp add: scanBlock_legacy_def b split: option.splits)
qed

lemma cursor_scan_and_persist_legacy:
  "last_scanned_payment_block (fst (scan_and_persist_legacy rnd up h m)) =
     (case last_scanned_payment_block (fst m) of None \<Rightarrow> None | Some l \<Rightarrow> Some h)"
  using cursor_scanBlock_legacy [of rnd up h m]
  by (simp add: scan_and_persist_legacy_def Let_def persist_height_def split: option.splits)

lemma cursor_scan_loop_legacy:
  assumes "last_scanned_payment_block (fst m) = Some l"
  shows "last_scanned_payment_block (fst (fold (scan_and_persist_legacy rnd up) hs m)) =
           Some (last (l # hs))"
  using assms
proof (induction hs arbitrary: m l)
  case Nil
  then show ?case by simp
next
  case (Cons h hs)
  have "last_scanned_payment_block (fst (scan_and_persist_legacy rnd up h m)) = Some h"
    using Cons.prems by (simp add: cursor_scan_and_persist_legacy)
  from Cons.IH [OF this] show ?case by simp
qed

lemma monitorPayments_proceeds:
  assumes "loadPendingPayments_legacy (fst m) \<noteq> []"
    and "getblockcount up 0 GETBLOCK_URL = RpcResult H" and "H \<noteq> 0"
  shows "monitorPayments rnd up m =
           fold (scan_and_persist_legacy rnd up)
             [(case last_scanned_payment_block (fst m) of None \<Rightarrow> H - 100 | Some l \<Rightarrow> l) + 1..H]
             ((fst m)\<lparr>last_scanned_payment_block :=
                 Some (case last_scanned_payment_block (fst m) of None \<Rightarrow> H - 100 | Some l \<Rightarrow> l)\<rparr>,
              loadPendingPayments_legacy (fst m))"
proof (cases "last_scanned_payment_block (fst m)")
  case None
  then show ?thesis
    using assms by (simp add: monitorPayments_def Let_def rpcCall_legacy_def)
next
  case (Some l)
  then have e: "(fst m)\<lparr>last_scanned_payment_block := Some l\<rparr> = fst m"
    by simp
  show ?thesis
    using assms Some by (simp add: monitorPayments_def Let_def rpcCall_legacy_def e)
qed

lemma monitorPayments_cursor:
  assumes "loadPendingPayments_legacy (fst m) \<noteq> []"
    and "getblockcount up 0 GETBLOCK_URL = RpcResult H" and "H \<noteq> 0"
  shows "last_scanned_payment_block (fst (monitorPayments rnd up m)) =
           Some (max H (case last_scanned_payment_block (fst m) of None \<Rightarrow> H - 100 | Some l \<Rightarrow> l))"
proof -
  define L where "L = (case last_scanned_payment_block (fst m) of None \<Rightarrow> H - 100 | Some l \<Rightarrow> l)"
  define m1 where "m1 = ((fst m)\<lparr>last_scanned_payment_block := Some L\<rparr>,
      loadPendingPayments_legacy (fst m))"
  have c: "last_scanned_payment_block (fst m1) = Some L" by (simp add: m1_def)
  have "last_scanned_payment_block (fst (monitorPayments rnd up m)) = Some (last (L # [L + 1..H]))"
    unfolding monitorPayments_proceeds [OF assms] L_def [symmetric] m1_def [symmetric]
    using c by (rule cursor_scan_loop_legacy)
  also have "last (L # [L + 1..H]) = max H L"
  proof (cases "L + 1 \<le> H")
    case True
    then have "[L + 1..H] \<noteq> []" by simp
    then have "last (L # [L + 1..H]) = last [L + 1..H]" by simp
    with True show ?thesis by (simp add: last_upto)
  next
    case False
    then show ?thesis by simp
  qed
  finally show ?thesis by (simp add: L_def)
qed

lemma monitorPayments_monotone:
  "cursor_le (last_scanned_payment_block (fst m))
     (last_scanned_payment_block (fst (monitorPayments rnd up m)))"
proof (cases "loadPendingPayments_legacy (fst m) = []")
  case True
  then show ?thesis by (simp add: monitorPayments_def Let_def cursor_le_refl)
next
  case False
  show ?thesis
  proof (cases "getblockcount up 0 GETBLOCK_URL")
    case (RpcResult H)
    show ?thesis
    proof (cases "H = 0")
      case True
      then show ?thesis
        using False RpcResult
        by (simp add: monitorPayments_def Let_def rpcCall_legacy_def cursor_le_refl)
    next
      case h: False
      show ?thesis
        unfolding monitorPayments_cursor [OF False RpcResult h]
        by (simp add: cursor_le_def split: option.splits)
    qed
  qed (use False in \<open>simp_all add: monitorPayments_def Let_def rpcCall_legacy_def cursor_le_refl\<close>)
qed

lemma payment_scanner_monotone:
  "cursor_le (last_scanned_payment_block (fst m))
     (last_scanned_payment_block (fst (payment_scanner cycles m)))"
proof (induction cycles arbitrary: m)
  case Nil
  show ?case by (simp add: payment_scanner_def cursor_le_refl)
next
  case (Cons c cycles)
  obtain rnd up where c: "c = (rnd, up)" by (cases c) auto
  have "payment_scanner (c # cycles) m = payment_scanner cycles (monitorPayments rnd up m)"
    by (simp add: payment_scanner_def c)
  with monitorPayments_monotone [of m rnd up] Cons.IH [of "monitorPayments rnd up m"]
  show ?case by (auto intro: cursor_le_trans)
qed




section \<open>The two revisions of the server\<close>

lemma cleanup_5min_nfts:
  "nfts (cleanupExpiredSessions_5min now st) = map (released (swept_5min now st)) (nfts st)"
  by (simp add: cleanup_5min_eq swept_5min_def)

lemma cleanup_5min_sessions:
  "sessions (cleanupExpiredSessions_5min now st) =
     filter (\<lambda>s. session_uuid s \<notin> swept_5min now st) (sessions st)"
  by (simp add: cleanup_5min_eq swept_5min_def)

lemma swept_5min_iff:
  assumes "distinct (map session_uuid (sessions st))" and "s \<in> set (sessions st)"
  shows "session_uuid s \<in> swept_5min now st \<longleftrightarrow>
           status s = Pending \<and> created_at s + SESSION_TIMEOUT_MINUTES_5min * 60 < now"
proof -
  have inj: "inj_on session_uuid (set (sessions st))"
    using assms(1) by (simp add: distinct_map)
  show ?thesis
    using inj assms(2) by (auto simp: swept_5min_def expiredSessions_def dest: inj_onD)
qed

lemma earlier_sweeper_pending:
  assumes "distinct (map session_uuid (sessions st))" and "s \<in> set (sessions st)"
    and "status s = Pending"
  shows "(s \<in> set (sessions (cleanupExpiredSessions_5min now st)) \<longleftrightarrow>
            \<not> created_at s + SESSION_TIMEOUT_MINUTES_5min * 60 < now) \<and>
         length (nfts (cleanupExpiredSessions_5min now st)) = length (nfts st) \<and>
         (\<forall>i < length (nfts st). session_id (nfts st ! i) = Some (session_uuid s) \<longrightarrow>
            nfts (cleanupExpiredSessions_5min now st) ! i =
              (if created_at s + SESSION_TIMEOUT_MINUTES_5min * 60 < now \<and> \<not> claimed (nfts st ! i)
               then (nfts st ! i)\<lparr>session_id := None\<rparr> else nfts st ! i))"
proof -
  have young: "session_uuid s \<notin> swept_5min now st"
    if "\<not> created_at s + SESSION_TIMEOUT_MINUTES_5min * 60 < now"
    using swept_5min_iff [OF assms(1,2), of now] that by simp
  have old: "session_uuid s \<in> swept_5min now st"
    if "created_at s + SESSION_TIMEOUT_MINUTES_5min * 60 < now"
    using swept_5min_iff [OF assms(1,2), of now] that assms(3) by simp
  show ?thesis
    using young old assms(2)
    by (auto simp: cleanup_5min_nfts cleanup_5min_sessions released_def)
qed

lemma earlier_sweeper_payment_pending:
  assumes "distinct (map session_uuid (sessions st))" and "s \<in> set (sessions st)"
    and "status s = PaymentPending"
  shows "s \<in> set (sessions (cleanupExpiredSessions_5min now st)) \<and>
         length (nfts (cleanupExpiredSessions_5min now st)) = length (nfts st) \<and>
         (\<forall>i < length (nfts st). session_id (nfts st ! i) = Some (session_uuid s) \<longrightarrow>
            nfts (cleanupExpiredSessions_5min now st) ! i = nfts st ! i)"
proof -
  have out: "session_uuid s \<notin> swept_5min now st"
    using swept_5min_iff [OF assms(1,2), of now] assms(3) by simp
  show ?thesis
    using out assms(2)
    by (auto simp: cleanup_5min_nfts cleanup_5min_sessions released_def)
qed

text \<open>
  The sweeper of \<^verbatim>\<open>server.js\<close> at a time when the session \<open>0c\<close>, in status
  \<open>PaymentPending\<close>, was last updated more than 24 hours ago: the row and its reservation
  are still there.
\<close>

theorem sweeper_counterexample_24h:
  "example_paid \<in> set (sessions example_db) \<and> status example_paid = PaymentPending \<and>
   updated_at example_paid + 24 * 3600 < 90000 \<and>
   example_paid \<in> set (sessions (cleanupExpiredSessions_5min 90000 example_db)) \<and>
   nfts (cleanupExpiredSessions_5min 90000 example_db) ! 3 =
     \<lparr>nft_id = 4, cid = ''cid4'', claimed = False, session_id = Some ''0c''\<rparr>"
proof -
  have d: "distinct (map session_uuid (sessions example_db))"
    by (simp add: example_db_def example_old_def example_young_def example_paid_def
        example_done_def)
  have h: "example_paid \<in> set (sessions example_db)" "status example_paid = PaymentPending"
    "updated_at example_paid + 24 * 3600 < 90000"
    by (simp_all add: example_db_def example_paid_def)
  have n: "(3::nat) < length (nfts example_db)"
    "session_id (nfts example_db ! 3) = Some (session_uuid example_paid)"
    "nfts example_db ! 3 = \<lparr>nft_id = 4, cid = ''cid4'', claimed = False, session_id = Some ''0c''\<rparr>"
    by (simp_all add: example_db_def example_nfts_def example_paid_def)
  note e = earlier_sweeper_payment_pending [OF d h(1,2), of 90000]
  have "nfts (cleanupExpiredSessions_5min 90000 example_db) ! 3 = nfts example_db ! 3"
    using conjunct2 [OF conjunct2 [OF e]] n(1,2) by blast
  with conjunct1 [OF e] h n(3) show ?thesis by simp
qed

text \<open>
  C4, for the two sweepers of the repository. For a session in status \<open>PaymentPending\<close>
  whose \<open>updated_at\<close> is more than 24 hours old, the sweeper of the later server removes
  every row with its id and clears the \<open>session_id\<close> of each item it had reserved and not
  claimed, with the two statements that expire a \<open>Pending\<close> session; the sweeper of
  \<^verbatim>\<open>server.js\<close> selects \<open>Pending\<close> sessions only and leaves the row and every item
  that refers to it as they are.
\<close>

theorem sweepers_and_abandoned_payments:
  assumes "s \<in> set (sessions st)" and "status s = PaymentPending"
    and "updated_at s + 24 * 3600 < now"
  shows "(session_uuid s \<notin> session_uuid ` set (sessions (cleanupExpiredSessions now st)) \<and>
          length (nfts (cleanupExpiredSessions now st)) = length (nfts st) \<and>
          (\<forall>i < length (nfts st).
             session_id (nfts st ! i) = Some (session_uuid s) \<and> \<not> claimed (nfts st ! i) \<longrightarrow>
             nfts (cleanupExpiredSessions now st) ! i = (nfts st ! i)\<lparr>session_id := None\<rparr>)) \<and>
         (distinct (map session_uuid (sessions st)) \<longrightarrow>
          s \<in> set (sessions (cleanupExpiredSessions_5min now st)) \<and>
          length (nfts (cleanupExpiredSessions_5min now st)) = length (nfts st) \<and>
          (\<forall>i < length (nfts st). session_id (nfts st ! i) = Some (session_uuid s) \<longrightarrow>
             nfts (cleanupExpiredSessions_5min now st) ! i = nfts st ! i))"
proof (intro conjI impI)
  note l = later_sweeper_recovers_abandoned [OF assms]
  show "session_uuid s \<notin> session_uuid ` set (sessions (cleanupExpiredSessions now st))"
    by (rule conjunct1 [OF l])
  show "length (nfts (cleanupExpiredSessions now st)) = length (nfts st)"
    by (rule conjunct1 [OF conjunct2 [OF l]])
  show "\<forall>i < length (nfts st).
      session_id (nfts st ! i) = Some (session_uuid s) \<and> \<not> claimed (nfts st ! i) \<longrightarrow>
      nfts (cleanupExpiredSessions now st) ! i = (nfts st ! i)\<lparr>session_id := None\<rparr>"
    by (rule conjunct2 [OF conjunct2 [OF l]])
next
  assume d: "distinct (map session_uuid (sessions st))"
  note e = earlier_sweeper_payment_pending [OF d assms(1,2), of now]
  show "s \<in> set (sessions (cleanupExpiredSessions_5min now st))"
    by (rule conjunct1 [OF e])
  show "length (nfts (cleanupExpiredSessions_5min now st)) = length (nfts st)"
    by (rule conjunct1 [OF conjunct2 [OF e]])
  show "\<forall>i < length (nfts st). session_id (nfts st ! i) = Some (session_uuid s) \<longrightarrow>
      nfts (cleanupExpiredSessions_5min now st) ! i = nfts st ! i"
    by (rule conjunct2 [OF conjunct2 [OF e]])
qed

theorem sweepers_and_abandoned_payments_witness:
  "session_uuid example_paid \<notin>
     session_uuid ` set (sessions (cleanupExpiredSessions 90000 example_db)) \<and>
   nfts (cleanupExpiredSessions 90000 example_db) ! 3 = (nfts example_db ! 3)\<lparr>session_id := None\<rparr> \<and>
   example_paid \<in> set (sessions (cleanupExpiredSessions_5min 90000 example_db)) \<and>
   nfts (cleanupExpiredSessions_5min 90000 example_db) ! 3 = nfts example_db ! 3"
proof -
  have h1: "example_paid \<in> set (sessions example_db)"
    by (simp add: example_db_def)
  have h2: "status example_paid = PaymentPending"
    by (simp add: example_paid_def)
  have h3: "updated_at example_paid + 24 * 3600 < 90000"
    by (simp add: example_paid_def)
  have d: "distinct (map session_uuid (sessions example_db))"
    by (simp add: example_db_def example_old_def example_young_def example_paid_def
        example_done_def)
  have h4: "(3::nat) < length (nfts example_db)"
    "session_id (nfts example_db ! 3) = Some (session_uuid example_paid)"
    "\<not> claimed (nfts example_db ! 3)"
    by (simp_all add: example_db_def example_nfts_def example_paid_def)
  note w = sweepers_and_abandoned_payments [OF h1 h2 h3]
  have a: "session_uuid example_paid \<notin>
      session_uuid ` set (sessions (cleanupExpiredSessions 90000 example_db))"
    by (rule conjunct1 [OF conjunct1 [OF w]])
  have b: "nfts (cleanupExpiredSessions 90000 example_db) ! 3 =
      (nfts example_db ! 3)\<lparr>session_id := None\<rparr>"
    using conjunct2 [OF conjunct2 [OF conjunct1 [OF w]]] h4 by blast
  note e = mp [OF conjunct2 [OF w] d]
  have c: "example_paid \<in> set (sessions (cleanupExpiredSessions_5min 90000 example_db))"
    by (rule conjunct1 [OF e])
  have f: "nfts (cleanupExpiredSessions_5min 90000 example_db) ! 3 = nfts example_db ! 3"
    using conjunct2 [OF conjunct2 [OF e]] h4 by blast
  show ?thesis
    using a b c f by (intro conjI)
qed

text \<open>
  The sweeper of \<^verbatim>\<open>server.js\<close> 400 seconds after the session \<open>0a\<close> was created: the
  session is younger than ten minutes, and it is removed and its item released.
\<close>

theorem sweeper_counterexample_timeout:
  "example_old \<in> set (sessions example_db) \<and> status example_old = Pending \<and>
   \<not> created_at example_old + 10 * 60 < 400 \<and>
   example_old \<notin> set (sessions (cleanupExpiredSessions_5min 400 example_db)) \<and>
   nfts (cleanupExpiredSessions_5min 400 example_db) ! 0 =
     \<lparr>nft_id = 1, cid = ''cid1'', claimed = False, session_id = None\<rparr>"
proof -
  have d: "distinct (map session_uuid (sessions example_db))"
    by (simp add: example_db_def example_old_def example_young_def example_paid_def
        example_done_def)
  have h: "example_old \<in> set (sessions example_db)" "status example_old = Pending"
    "\<not> created_at example_old + 10 * 60 < 400"
    "created_at example_old + SESSION_TIMEOUT_MINUTES_5min * 60 < 400"
    by (simp_all add: example_db_def example_old_def SESSION_TIMEOUT_MINUTES_5min_def)
  have n: "(0::nat) < length (nfts example_db)"
    "session_id (nfts example_db ! 0) = Some (session_uuid example_old)"
    "\<not> claimed (nfts example_db ! 0)"
    "(nfts example_db ! 0)\<lparr>session_id := None\<rparr> =
       \<lparr>nft_id = 1, cid = ''cid1'', claimed = False, session_id = None\<rparr>"
    by (simp_all add: example_db_def example_nfts_def example_old_def)
  note e = earlier_sweeper_pending [OF d h(1,2), of 400]
  have a: "example_old \<notin> set (sessions (cleanupExpiredSessions_5min 400 example_db))"
    using conjunct1 [OF e] h(4) by blast
  have "nfts (cleanupExpiredSessions_5min 400 example_db) ! 0 =
      (nfts example_db ! 0)\<lparr>session_id := None\<rparr>"
    using conjunct2 [OF conjunct2 [OF e]] n(1,2,3) h(4) by presburger
  with a h n(4) show ?thesis by simp
qed

text \<open>
  C5, for the two sweepers of the repository. A run of the sweeper removes a \<open>Pending\<close>
  session exactly when its \<open>created_at\<close> is more than \<^verbatim>\<open>SESSION_TIMEOUT_MINUTES\<close>
  minutes old: such a session loses its row and its unclaimed items are released, a younger
  one keeps its row and every item that refers to it. The constant is 10 in the later
  server and 5 in \<^verbatim>\<open>server.js\<close>.
\<close>

theorem sweepers_expire_pending:
  assumes "distinct (map session_uuid (sessions st))" and "s \<in> set (sessions st)"
    and "status s = Pending"
  shows "(SESSION_TIMEOUT_MINUTES = 10 \<and>
          (s \<in> set (sessions (cleanupExpiredSessions now st)) \<longleftrightarrow>
             \<not> created_at s + SESSION_TIMEOUT_MINUTES * 60 < now) \<and>
          length (nfts (cleanupExpiredSessions now st)) = length (nfts st) \<and>
          (\<forall>i < length (nfts st). session_id (nfts st ! i) = Some (session_uuid s) \<longrightarrow>
             nfts (cleanupExpiredSessions now st) ! i =
               (if created_at s + SESSION_TIMEOUT_MINUTES * 60 < now \<and> \<not> claimed (nfts st ! i)
                then (nfts st ! i)\<lparr>session_id := None\<rparr> else nfts st ! i))) \<and>
         (SESSION_TIMEOUT_MINUTES_5min = 5 \<and>
          (s \<in> set (sessions (cleanupExpiredSessions_5min now st)) \<longleftrightarrow>
             \<not> created_at s + SESSION_TIMEOUT_MINUTES_5min * 60 < now) \<and>
          length (nfts (cleanupExpiredSessions_5min now st)) = length (nfts st) \<and>
          (\<forall>i < length (nfts st). session_id (nfts st ! i) = Some (session_uuid s) \<longrightarrow>
             nfts (cleanupExpiredSessions_5min now st) ! i =
               (if created_at s + SESSION_TIMEOUT_MINUTES_5min * 60 < now \<and> \<not> claimed (nfts st ! i)
                then (nfts st ! i)\<lparr>session_id := None\<rparr> else nfts st ! i)))"
proof (rule conjI)
  show "SESSION_TIMEOUT_MINUTES = 10 \<and>
          (s \<in> set (sessions (cleanupExpiredSessions now st)) \<longleftrightarrow>
             \<not> created_at s + SESSION_TIMEOUT_MINUTES * 60 < now) \<and>
          length (nfts (cleanupExpiredSessions now st)) = length (nfts st) \<and>
          (\<forall>i < length (nfts st). session_id (nfts st ! i) = Some (session_uuid s) \<longrightarrow>
             nfts (cleanupExpiredSessions now st) ! i =
               (if created_at s + SESSION_TIMEOUT_MINUTES * 60 < now \<and> \<not> claimed (nfts st ! i)
                then (nfts st ! i)\<lparr>session_id := None\<rparr> else nfts st ! i))"
    by (rule later_sweeper_expires_pending [OF assms])
  have "SESSION_TIMEOUT_MINUTES_5min = 5"
    by (simp add: SESSION_TIMEOUT_MINUTES_5min_def)
  then show "SESSION_TIMEOUT_MINUTES_5min = 5 \<and>
          (s \<in> set (sessions (cleanupExpiredSessions_5min now st)) \<longleftrightarrow>
             \<not> created_at s + SESSION_TIMEOUT_MINUTES_5min * 60 < now) \<and>
          length (nfts (cleanupExpiredSessions_5min now st)) = length (nfts st) \<and>
          (\<forall>i < length (nfts st). session_id (nfts st ! i) = Some (session_uuid s) \<longrightarrow>
             nfts (cleanupExpiredSessions_5min now st) ! i =
               (if created_at s + SESSION_TIMEOUT_MINUTES_5min * 60 < now \<and> \<not> claimed (nfts st ! i)
                then (nfts st ! i)\<lparr>session_id := None\<rparr> else nfts st ! i))"
    using earlier_sweeper_pending [OF assms, of now] by (rule conjI)
qed

theorem sweepers_expire_pending_witness:
  "example_old \<notin> set (sessions (cleanupExpiredSessions 1500 example_db)) \<and>
   example_young \<in> set (sessions (cleanupExpiredSessions 1500 example_db)) \<and>
   example_old \<in> set (sessions (cleanupExpiredSessions 400 example_db)) \<and>
   example_old \<notin> set (sessions (cleanupExpiredSessions_5min 400 example_db)) \<and>
   example_young \<in> set (sessions (cleanupExpiredSessions_5min 1300 example_db))"
proof -
  have d: "distinct (map session_uuid (sessions example_db))"
    by (simp add: example_db_def example_old_def example_young_def example_paid_def
        example_done_def)
  have o: "example_old \<in> set (sessions example_db)" "status example_old = Pending"
    "created_at example_old + SESSION_TIMEOUT_MINUTES * 60 < 1500"
    "\<not> created_at example_old + SESSION_TIMEOUT_MINUTES * 60 < 400"
    "created_at example_old + SESSION_TIMEOUT_MINUTES_5min * 60 < 400"
    by (simp_all add: example_db_def example_old_def SESSION_TIMEOUT_MINUTES_def
        SESSION_TIMEOUT_MINUTES_5min_def)
  have y: "example_young \<in> set (sessions example_db)" "status example_young = Pending"
    "\<not> created_at example_young + SESSION_TIMEOUT_MINUTES * 60 < 1500"
    "\<not> created_at example_young + SESSION_TIMEOUT_MINUTES_5min * 60 < 1300"
    by (simp_all add: example_db_def example_young_def SESSION_TIMEOUT_MINUTES_def
        SESSION_TIMEOUT_MINUTES_5min_def)
  have a: "example_old \<notin> set (sessions (cleanupExpiredSessions 1500 example_db))"
    using conjunct1 [OF conjunct2 [OF conjunct1 [OF sweepers_expire_pending [OF d o(1,2), of 1500]]]]
      o(3) by blast
  have b: "example_young \<in> set (sessions (cleanupExpiredSessions 1500 example_db))"
    using conjunct1 [OF conjunct2 [OF conjunct1 [OF sweepers_expire_pending [OF d y(1,2), of 1500]]]]
      y(3) by blast
  have c: "example_old \<in> set (sessions (cleanupExpiredSessions 400 example_db))"
    using conjunct1 [OF conjunct2 [OF conjunct1 [OF sweepers_expire_pending [OF d o(1,2), of 400]]]]
      o(4) by blast
  have e: "example_old \<notin> set (sessions (cleanupExpiredSessions_5min 400 example_db))"
    using conjunct1 [OF conjunct2 [OF conjunct2 [OF sweepers_expire_pending [OF d o(1,2), of 400]]]]
      o(5) by blast
  have f: "example_young \<in> set (sessions (cleanupExpiredSessions_5min 1300 example_db))"
    using conjunct1 [OF conjunct2 [OF conjunct2 [OF sweepers_expire_pending [OF d y(1,2), of 1300]]]]
      y(4) by blast
  show ?thesis
    using a b c e f by (intro conjI)
qed

text \<open>
  The status handler of \<^verbatim>\<open>server.js\<close> for the session \<open>0c\<close>, which is in status
  \<open>PaymentPending\<close>: the answer is \<^verbatim>\<open>{status: 'pending'}\<close>, without message or
  transaction id.
\<close>

theorem status_counterexample_payment_pending:
  "example_paid \<in> set (sessions example_db) \<and> status example_paid = PaymentPending \<and>
   session_uuid example_paid = ''0c'' \<and>
   check_payment_status_5min 5000000 ''0c'' example_db = StatusPending"
proof -
  have d: "distinct (map session_uuid (sessions example_db))"
    by (simp add: example_db_def example_old_def example_young_def example_paid_def
        example_done_def)
  have h: "example_paid \<in> set (sessions example_db)" "status example_paid = PaymentPending"
    "session_uuid example_paid = ''0c''"
    by (simp_all add: example_db_def example_paid_def)
  from check_payment_status_5min_payment_pending [OF d h(1,2), of 5000000] h
  show ?thesis by simp
qed

text \<open>
  C6, for the two status handlers of the repository. For a session of the store in status
  \<open>PaymentPending\<close>, whatever the clock says, the handler of the later server answers with
  the status \<^verbatim>\<open>payment_pending\<close>, its message and the \<open>payment_txid\<close> recorded in the
  row; the handler of \<^verbatim>\<open>server.js\<close> answers \<^verbatim>\<open>{status: 'pending'}\<close>.
\<close>

theorem status_of_payment_pending:
  assumes "distinct (map session_uuid (sessions st))" and "s \<in> set (sessions st)"
    and "status s = PaymentPending"
  shows "check_payment_status now_ms (session_uuid s) st =
           StatusPaymentPending ''Payment detected! Waiting for blockchain confirmation...''
             (payment_txid s) \<and>
         check_payment_status_5min now_ms (session_uuid s) st = StatusPending"
  using later_status_payment_pending [OF assms] check_payment_status_5min_payment_pending [OF assms]
  by simp

theorem status_of_payment_pending_witness:
  "check_payment_status 5000000 ''0c'' example_db =
     StatusPaymentPending ''Payment detected! Waiting for blockchain confirmation...'' (Some ''t3'') \<and>
   check_payment_status_5min 5000000 ''0c'' example_db = StatusPending"
proof -
  have d: "distinct (map session_uuid (sessions example_db))"
    by (simp add: example_db_def example_old_def example_young_def example_paid_def
        example_done_def)
  have h: "example_paid \<in> set (sessions example_db)" "status example_paid = PaymentPending"
    "session_uuid example_paid = ''0c''" "payment_txid example_paid = Some ''t3''"
    by (simp_all add: example_db_def example_paid_def)
  show ?thesis
    using status_of_payment_pending [OF d h(1,2), of 5000000] h(3,4) by simp
qed


section \<open>The pool of endpoints\<close>

lemma reset_daily_rollover:
  assumes "lastReset a \<noteq> today"
  shows "enabled (reset_daily today a) \<and> cuUsedToday (reset_daily today a) = 0 \<and>
         failCount (reset_daily today a) = 0 \<and> lastReset (reset_daily today a) = today"
  using assms by (simp add: reset_daily_def)

lemma selectBestApi_resets:
  "fst (selectBestApi today pool) = map (reset_daily today) pool"
  by (simp add: selectBestApi_def Let_def split: list.splits)

lemma better_api_in:
  "better_api pool best current = best \<or> better_api pool best current = current"
  by (simp add: better_api_def Let_def)

lemma foldl_better_api_in:
  "foldl (better_api pool) first others \<in> set (first # others)"
proof (induction others arbitrary: first)
  case Nil
  show ?case by simp
next
  case (Cons c others)
  from better_api_in [of pool first c] Cons.IH [of "better_api pool first c"]
  show ?case by auto
qed

lemma selectBestApi_unfold:
  "selectBestApi today pool =
     (case filter (\<lambda>i. is_available (map (reset_daily today) pool ! i)) [0..<length pool] of
        [] \<Rightarrow> (map (reset_daily today) pool, None)
      | first # others \<Rightarrow>
          (map (reset_daily today) pool,
           Some (foldl (better_api (map (reset_daily today) pool)) first others)))"
  by (simp add: selectBestApi_def Let_def)

lemma selectBestApi_available:
  assumes "selectBestApi today pool = (pool1, Some i)"
  shows "i < length pool1 \<and> is_available (pool1 ! i)"
proof (cases "filter (\<lambda>i. is_available (map (reset_daily today) pool ! i)) [0..<length pool]")
  case Nil
  with assms show ?thesis by (simp add: selectBestApi_unfold)
next
  case (Cons first others)
  with assms have i: "i = foldl (better_api (map (reset_daily today) pool)) first others"
    and a: "pool1 = map (reset_daily today) pool"
    by (auto simp: selectBestApi_unfold)
  from foldl_better_api_in [of "map (reset_daily today) pool" first others] i
  have "i \<in> set (first # others)" by simp
  then have "i \<in> set (filter (\<lambda>i. is_available (map (reset_daily today) pool ! i))
      [0..<length pool])"
    by (simp only: Cons)
  then show ?thesis by (auto simp: a)
qed

lemma selectBestApi_none:
  assumes "selectBestApi today pool = (pool1, None)"
  shows "\<forall>a \<in> set pool1. \<not> is_available a"
proof (cases "filter (\<lambda>i. is_available (map (reset_daily today) pool ! i)) [0..<length pool]")
  case Nil
  with assms have a: "pool1 = map (reset_daily today) pool"
    by (simp add: selectBestApi_unfold)
  show ?thesis
  proof
    fix x assume "x \<in> set pool1"
    then obtain j where j: "j < length pool1" "pool1 ! j = x" by (auto simp: in_set_conv_nth)
    from Nil have "\<forall>i \<in> set [0..<length pool]. \<not> is_available (map (reset_daily today) pool ! i)"
      by (simp only: filter_empty_conv)
    with j a show "\<not> is_available x" by auto
  qed
next
  case (Cons first others)
  with assms show ?thesis by (simp add: selectBestApi_unfold)
qed

lemma rpcCall_first_attempt_succeeds:
  assumes "pool \<noteq> []" and "selectBestApi today pool = (pool1, Some i)"
    and "net 0 (url (pool1 ! i)) = RpcResult r"
  shows "rpcCall today net estimatedCU pool =
           (pool1[i := record_success estimatedCU (pool1 ! i)], Some r)"
proof -
  from assms(1) obtain k where "length pool = Suc k" by (cases pool) auto
  then show ?thesis using assms(2,3) by (simp add: rpcCall_def)
qed

text \<open>
  C7. The pool as the monitor starts it, on a day when the first two endpoints do not
  answer and the other three would: the five attempts of one \<^verbatim>\<open>rpcCall\<close> go to the
  first endpoint three times (it is disabled at the third failure) and to the second one
  twice, and the call returns \<^verbatim>\<open>null\<close>; the third endpoint, which would have answered 42,
  is never asked. And when the first endpoint answers with an \<^verbatim>\<open>error\<close> field, it is
  asked three times as well, its \<open>failCount\<close> reaches 3 and its \<open>enabled\<close> flag stays
  set; the fourth attempt succeeds on the second endpoint, which is charged the cost.
\<close>

theorem rpcCall_retries_same_endpoint:
  "map failCount (fst (rpcCall ''Mon Nov 03 2025'' two_down 10 (API_ENDPOINTS ''Mon Nov 03 2025'')))
     = [3, 2, 0, 0, 0] \<and>
   map enabled (fst (rpcCall ''Mon Nov 03 2025'' two_down 10 (API_ENDPOINTS ''Mon Nov 03 2025'')))
     = [False, True, True, True, True] \<and>
   snd (rpcCall ''Mon Nov 03 2025'' two_down 10 (API_ENDPOINTS ''Mon Nov 03 2025'')) = None \<and>
   two_down 3 (url (API_ENDPOINTS ''Mon Nov 03 2025'' ! 2)) = RpcResult 42 \<and>
   map failCount (fst (rpcCall ''Mon Nov 03 2025'' first_refuses 10
       (API_ENDPOINTS ''Mon Nov 03 2025''))) = [3, 0, 0, 0, 0] \<and>
   map enabled (fst (rpcCall ''Mon Nov 03 2025'' first_refuses 10
       (API_ENDPOINTS ''Mon Nov 03 2025''))) = [True, True, True, True, True] \<and>
   map cuUsedToday (fst (rpcCall ''Mon Nov 03 2025'' first_refuses 10
       (API_ENDPOINTS ''Mon Nov 03 2025''))) = [0, 10, 0, 0, 0] \<and>
   snd (rpcCall ''Mon Nov 03 2025'' first_refuses 10 (API_ENDPOINTS ''Mon Nov 03 2025'')) = Some 42"
  by code_simp

text \<open>On the next day the first call of \<^verbatim>\<open>selectBestApi\<close> resets every endpoint.\<close>

lemma rollover_after_failures:
  "map enabled (fst (selectBestApi ''Tue Nov 04 2025''
     (fst (rpcCall ''Mon Nov 03 2025'' two_down 10 (API_ENDPOINTS ''Mon Nov 03 2025'')))))
     = [True, True, True, True, True] \<and>
   map cuUsedToday (fst (selectBestApi ''Tue Nov 04 2025''
     (fst (rpcCall ''Mon Nov 03 2025'' two_down 10 (API_ENDPOINTS ''Mon Nov 03 2025'')))))
     = [0, 0, 0, 0, 0] \<and>
   map failCount (fst (selectBestApi ''Tue Nov 04 2025''
     (fst (rpcCall ''Mon Nov 03 2025'' two_down 10 (API_ENDPOINTS ''Mon Nov 03 2025'')))))
     = [0, 0, 0, 0, 0]"
  by code_simp


end
